theory Spec2Isabelle
  imports Complex_Main "HOL-Library.Word" "HOL-Library.Multiset" "HOL-Library.Sublist"
begin

section \<open>Data model\<close>

text \<open>
  The documents of \<^verbatim>\<open>main.cpp\<close>: a label (\<^verbatim>\<open>url\<close>), the n-gram counts read from
  the token stream (\<^verbatim>\<open>vocab\<close>, a map, kept here as the list of its entries)
  and the sparse score vector (\<^verbatim>\<open>wordvec\<close>). Term hashes and \<^verbatim>\<open>size_t\<close> counters are
  64-bit words. The \<^verbatim>\<open>float\<close> scores are taken as real numbers: rounding, infinities and
  NaN are outside this development.
\<close>

type_synonym NGram = "64 word"
type_synonym size_t = "64 word"

record WordScore =
  hash :: NGram
  tfidf :: real

record Document =
  url :: string
  vocab :: "(NGram \<times> size_t) list"
  wordvec :: "WordScore list"

text \<open>
  A map holds a key at most once: an entry list stands for the entries of a map, in the
  order in which the map is iterated, when its keys are distinct.
\<close>

definition vocab_wf :: "Document \<Rightarrow> bool" where
  "vocab_wf d = distinct (map fst (vocab d))"

text \<open>\<^verbatim>\<open>Document()\<close>: every container empty.\<close>

definition Document_init :: Document where
  "Document_init = \<lparr>url = [], vocab = [], wordvec = []\<rparr>"

section \<open>Alignment score\<close>

text \<open>
  Modelled from the spec: the body of \<^verbatim>\<open>calculate_alignment\<close> (declared in
  \<^verbatim>\<open>document.h\<close>, defined in a file that is not part of the sources at hand). The spec
  describes a merge-join with two cursors over the two weight sequences: on equal hashes
  the product of the two weights is added to the running total and both cursors advance;
  otherwise the cursor at the smaller hash advances; the loop ends when either sequence is
  exhausted.
\<close>

fun alignment_loop :: "real \<Rightarrow> WordScore list \<Rightarrow> WordScore list \<Rightarrow> real" where
  "alignment_loop score [] r = score"
| "alignment_loop score (x # l) [] = score"
| "alignment_loop score (x # l) (y # r) =
     (if hash x = hash y then alignment_loop (score + tfidf x * tfidf y) l r
      else if hash x < hash y then alignment_loop score l (y # r)
      else alignment_loop score (x # l) r)"

definition calculate_alignment :: "Document \<Rightarrow> Document \<Rightarrow> real" where
  "calculate_alignment left right = alignment_loop 0 (wordvec left) (wordvec right)"

text \<open>The weight a sequence gives to a term hash (0 when the hash does not occur).\<close>

fun weight_of :: "WordScore list \<Rightarrow> NGram \<Rightarrow> real" where
  "weight_of [] h = 0"
| "weight_of (x # xs) h = (if hash x = h then tfidf x else weight_of xs h)"

definition hashes :: "WordScore list \<Rightarrow> NGram set" where
  "hashes ws = set (map hash ws)"

text \<open>The invariant of a scored document: ascending by term hash, no hash twice.\<close>

definition scored_wf :: "Document \<Rightarrow> bool" where
  "scored_wf d = (sorted (map hash (wordvec d)) \<and> distinct (map hash (wordvec d)))"

section \<open>Document frequency\<close>

text \<open>
  \<^verbatim>\<open>map<NGram,size_t> df\<close> and the aggregation pass of \<^verbatim>\<open>main\<close>:
  \<^verbatim>\<open>for (auto const &document : documents)
    for (auto const &entry : document.vocab)
      df[entry.first] += 1;\<close>
  \<^verbatim>\<open>df[k]\<close> inserts a zero for a key that is not there yet, and the addition is on
  \<^verbatim>\<open>size_t\<close>.
\<close>

type_synonym df_table = "NGram \<rightharpoonup> size_t"

definition df_increment :: "df_table \<Rightarrow> NGram \<Rightarrow> df_table" where
  "df_increment df k = df(k \<mapsto> (case df k of None \<Rightarrow> 0 | Some c \<Rightarrow> c) + 1)"

definition df_add_document :: "df_table \<Rightarrow> Document \<Rightarrow> df_table" where
  "df_add_document df document = foldl (\<lambda>df entry. df_increment df (fst entry)) df (vocab document)"

definition aggregate_df :: "df_table \<Rightarrow> Document list \<Rightarrow> df_table" where
  "aggregate_df df documents = foldl df_add_document df documents"

text \<open>The term hashes of a document's vocab, and the documents of a corpus that hold a term.\<close>

definition terms_of :: "Document \<Rightarrow> NGram set" where
  "terms_of d = fst ` set (vocab d)"

definition containing :: "NGram \<Rightarrow> Document list \<Rightarrow> Document list" where
  "containing t documents = filter (\<lambda>d. t \<in> terms_of d) documents"

section \<open>The bounded queue\<close>

text \<open>
  \<^verbatim>\<open>blocking_queue<T>\<close>: the capacity \<^verbatim>\<open>_size\<close> and the \<^verbatim>\<open>_buffer\<close>, oldest item first.
  Every operation runs under the queue's mutex, so it takes effect in one step, at the
  moment its \<^verbatim>\<open>while\<close> guard is passed. A call whose guard holds waits on its condition
  variable and changes nothing: the model returns \<open>None\<close> for it, and the caller can only
  proceed from a later state in which the guard has become false.
\<close>

record 'a blocking_queue =
  q_size :: nat
  q_buffer :: "'a list"

definition blocking_queue :: "nat \<Rightarrow> 'a blocking_queue" where
  "blocking_queue capacity = \<lparr>q_size = capacity, q_buffer = []\<rparr>"

definition push :: "'a \<Rightarrow> 'a blocking_queue \<Rightarrow> 'a blocking_queue option" where
  "push item q =
     (if length (q_buffer q) \<ge> q_size q then None
      else Some (q\<lparr>q_buffer := q_buffer q @ [item]\<rparr>))"

definition pop :: "'a blocking_queue \<Rightarrow> ('a \<times> 'a blocking_queue) option" where
  "pop q =
     (case q_buffer q of
        [] \<Rightarrow> None
      | v # rest \<Rightarrow> Some (v, q\<lparr>q_buffer := rest\<rparr>))"

text \<open>
  A history of the queue: the operations in the order in which they took effect, with the
  items pushed and the items popped so far. A history in which an operation would have to
  take effect while its guard holds is not a history of the queue (\<open>None\<close>).
\<close>

datatype 'a queue_op = Push 'a | Pop

record 'a history =
  h_queue :: "'a blocking_queue"
  h_pushed :: "'a list"
  h_popped :: "'a list"

definition history_init :: "nat \<Rightarrow> 'a history" where
  "history_init capacity = \<lparr>h_queue = blocking_queue capacity, h_pushed = [], h_popped = []\<rparr>"

fun run_ops :: "'a queue_op list \<Rightarrow> 'a history \<Rightarrow> 'a history option" where
  "run_ops [] h = Some h"
| "run_ops (Push item # ops) h =
     (case push item (h_queue h) of
        None \<Rightarrow> None
      | Some q \<Rightarrow> run_ops ops (h\<lparr>h_queue := q, h_pushed := h_pushed h @ [item]\<rparr>))"
| "run_ops (Pop # ops) h =
     (case pop (h_queue h) of
        None \<Rightarrow> None
      | Some (v, q) \<Rightarrow> run_ops ops (h\<lparr>h_queue := q, h_popped := h_popped h @ [v]\<rparr>))"

section \<open>The worker's scoring loop\<close>

text \<open>
  The body of the consumer for one popped candidate:
  \<^verbatim>\<open>for (auto const &document : documents) {
    float score = calculate_alignment(document, buffer);
    if (score >= threshold) ++hits;
  }\<close>
  \<^verbatim>\<open>hits\<close> is an \<^verbatim>\<open>atomic<size_t>\<close>.
\<close>

definition score_document :: "real \<Rightarrow> Document \<Rightarrow> size_t \<Rightarrow> Document \<Rightarrow> size_t" where
  "score_document threshold buffer hits document =
     (let score = calculate_alignment document buffer
      in if score \<ge> threshold then hits + 1 else hits)"

definition score_candidate :: "real \<Rightarrow> Document list \<Rightarrow> Document \<Rightarrow> size_t \<Rightarrow> size_t" where
  "score_candidate threshold documents buffer hits =
     foldl (score_document threshold buffer) hits documents"

text \<open>The reference documents that a candidate hits.\<close>

definition hit_documents :: "real \<Rightarrow> Document list \<Rightarrow> Document \<Rightarrow> Document list" where
  "hit_documents threshold documents buffer =
     filter (\<lambda>document. calculate_alignment document buffer \<ge> threshold) documents"

section \<open>The orchestrating thread\<close>

text \<open>
  \<^verbatim>\<open>main\<close> after its options have been parsed, up to its exit status (the count it
  prints before status 0 is the hit counter of the worker pool below). The two readers
  (\<^verbatim>\<open>tokens_in >> buffer\<close> and \<^verbatim>\<open>urls_in >> buffer.url\<close>) are not part of the sources at
  hand; a token stream is taken as the list of the vocabs it will yield and a label stream
  as the list of its labels, and a read fails exactly when the list is used up.

  \<^verbatim>\<open>calculate_tfidf(document, documents.size(), df)\<close> is declared in \<^verbatim>\<open>document.h\<close> and
  defined elsewhere: it is a parameter of the model, any function from the document, the
  document count and the table to the transformed document. The table is handed over by
  const reference and stays as it is.
\<close>

type_synonym vocab_map = "(NGram \<times> size_t) list"
type_synonym tfidf_fun = "Document \<Rightarrow> size_t \<Rightarrow> df_table \<Rightarrow> Document"

text \<open>The lines written to \<^verbatim>\<open>cerr\<close>, each with the number it prints.\<close>

datatype report =
    UrlErrorTranslated size_t  \<comment> \<open>Error while reading the url for the ..th document\<close>
  | ReadDocuments size_t       \<comment> \<open>Read .. documents\<close>
  | AggregatedDF               \<comment> \<open>Aggregated DF\<close>
  | CalculatedTFIDF            \<comment> \<open>Calculated translated TFIDF scores\<close>
  | UrlErrorEnglish size_t     \<comment> \<open>Error while reading url for the ..th document\<close>
  | EmptyVocab size_t          \<comment> \<open>Document .. resulted in an empty vocab\<close>
  | EmptyWordVec size_t        \<comment> \<open>Document .. resulted in an empty word vec\<close>

text \<open>
  The state of \<^verbatim>\<open>main\<close>: its locals \<^verbatim>\<open>documents\<close>, \<^verbatim>\<open>df\<close> and \<^verbatim>\<open>n\<close>, what it has
  handed to \<^verbatim>\<open>queue.push\<close> so far (oldest first), whether it has come back from joining
  the consumers, what it has written to \<^verbatim>\<open>cerr\<close>, and the state of its four input
  streams: whether a read of the token stream has failed, and the labels not yet read.
\<close>

record main_state =
  st_documents :: "Document list"
  st_df :: df_table
  st_n :: size_t
  st_pushed :: "Document list"
  st_joined :: bool
  st_cerr :: "report list"
  st_tokens_end :: bool
  st_urls_left :: "string list"
  st_en_tokens_end :: bool
  st_en_urls_left :: "string list"

definition main_init :: "string list \<Rightarrow> string list \<Rightarrow> main_state" where
  "main_init urls_in en_urls_in =
     \<lparr>st_documents = [], st_df = Map.empty, st_n = 0, st_pushed = [], st_joined = False,
      st_cerr = [], st_tokens_end = False, st_urls_left = urls_in,
      st_en_tokens_end = False, st_en_urls_left = en_urls_in\<rparr>"

definition log_cerr :: "report \<Rightarrow> main_state \<Rightarrow> main_state" where
  "log_cerr r s = s\<lparr>st_cerr := st_cerr s @ [r]\<rparr>"

text \<open>
  The first loop: \<^verbatim>\<open>while (tokens_in >> buffer) { if (!(urls_in >> buffer.url)) {...
  return 2; } documents.push_back(buffer); }\<close>. The result is the exit status when the
  loop returns from \<^verbatim>\<open>main\<close>, and \<open>None\<close> when it falls through.
\<close>

fun read_documents :: "vocab_map list \<Rightarrow> main_state \<Rightarrow> nat option \<times> main_state" where
  "read_documents [] s = (None, s\<lparr>st_tokens_end := True\<rparr>)"
| "read_documents (v # tokens_in) s =
     (case st_urls_left s of
        [] \<Rightarrow> (Some 2, log_cerr (UrlErrorTranslated (of_nat (length (st_documents s)))) s)
      | u # urls_in \<Rightarrow>
          read_documents tokens_in
            (s\<lparr>st_urls_left := urls_in,
               st_documents := st_documents s @ [\<lparr>url = u, vocab = v, wordvec = []\<rparr>]\<rparr>))"

text \<open>
  The declaration of \<^verbatim>\<open>df\<close>, empty, and the first pass over the corpus, which fills it.
\<close>

definition aggregate_pass :: "main_state \<Rightarrow> main_state" where
  "aggregate_pass s = s\<lparr>st_df := aggregate_df Map.empty (st_documents s)\<rparr>"

text \<open>
  The second pass over the corpus:
  \<^verbatim>\<open>for (auto &document : documents) { calculate_tfidf(document, documents.size(), df);
  document.vocab.clear(); }\<close>
\<close>

definition transform :: "tfidf_fun \<Rightarrow> size_t \<Rightarrow> df_table \<Rightarrow> Document \<Rightarrow> Document" where
  "transform calculate_tfidf document_count df document =
     (calculate_tfidf document document_count df)\<lparr>vocab := []\<rparr>"

definition transform_documents :: "tfidf_fun \<Rightarrow> main_state \<Rightarrow> main_state" where
  "transform_documents calculate_tfidf s =
     s\<lparr>st_documents :=
         map (transform calculate_tfidf (of_nat (length (st_documents s))) (st_df s))
             (st_documents s)\<rparr>"

text \<open>
  \<^verbatim>\<open>stop\<close>: one \<^verbatim>\<open>queue.push(Document())\<close> for each of the \<^verbatim>\<open>n_threads\<close> consumers, then
  the joins.
\<close>

definition stop :: "nat \<Rightarrow> main_state \<Rightarrow> main_state" where
  "stop n_threads s =
     s\<lparr>st_pushed := st_pushed s @ replicate n_threads Document_init, st_joined := True\<rparr>"

text \<open>
  The streaming loop over the candidates (\<^verbatim>\<open>while (true) { Document buffer; ... }\<close>). The
  result is the exit status: 0 stands for falling out of the loop, \<^verbatim>\<open>stop()\<close> and the
  end of \<^verbatim>\<open>main\<close>.
\<close>

fun candidate_loop ::
  "tfidf_fun \<Rightarrow> nat \<Rightarrow> vocab_map list \<Rightarrow> main_state \<Rightarrow> nat \<times> main_state" where
  "candidate_loop calculate_tfidf n_threads [] s =
     (0, stop n_threads (s\<lparr>st_en_tokens_end := True\<rparr>))"
| "candidate_loop calculate_tfidf n_threads (v # en_tokens_in) s =
     (case st_en_urls_left s of
        [] \<Rightarrow> (3, stop n_threads (log_cerr (UrlErrorEnglish (st_n s)) s))
      | u # en_urls_in \<Rightarrow>
          (let buffer = Document_init\<lparr>vocab := v, url := u\<rparr>;
               s = s\<lparr>st_en_urls_left := en_urls_in, st_n := st_n s + 1\<rparr>
           in if vocab buffer = [] then
                (4, stop n_threads (log_cerr (EmptyVocab (st_n s)) s))
              else
                (let buffer = transform calculate_tfidf (of_nat (length (st_documents s)))
                                (st_df s) buffer
                 in if wordvec buffer = [] then
                      (5, stop n_threads (log_cerr (EmptyWordVec (st_n s)) s))
                    else
                      candidate_loop calculate_tfidf n_threads en_tokens_in
                        (s\<lparr>st_pushed := st_pushed s @ [buffer]\<rparr>))))"

definition n_threads_main :: nat where
  "n_threads_main = 4"

definition main ::
  "tfidf_fun \<Rightarrow> vocab_map list \<Rightarrow> string list \<Rightarrow> vocab_map list \<Rightarrow> string list
     \<Rightarrow> nat \<times> main_state" where
  "main calculate_tfidf tokens_in urls_in en_tokens_in en_urls_in =
     (case read_documents tokens_in (main_init urls_in en_urls_in) of
        (Some status, s) \<Rightarrow> (status, s)
      | (None, s) \<Rightarrow>
          (let s = log_cerr (ReadDocuments (of_nat (length (st_documents s)))) s;
               s = aggregate_pass s;
               s = log_cerr AggregatedDF s;
               s = transform_documents calculate_tfidf s;
               s = log_cerr CalculatedTFIDF s
           in candidate_loop calculate_tfidf n_threads_main en_tokens_in s))"

section \<open>The worker pool\<close>

text \<open>
  The threads of \<^verbatim>\<open>main\<close> around the queue. A consumer is at \<^verbatim>\<open>queue.pop()\<close>
  (\<open>Popping\<close>), inside its \<^verbatim>\<open>for\<close> loop with the reference documents it still has to score
  the popped candidate against (\<open>Scoring\<close>), or past the \<^verbatim>\<open>break\<close> (\<open>Exited\<close>). The
  orchestrating thread has the items it is still going to push (the rest of the
  candidates, then the poison of \<^verbatim>\<open>stop\<close>) and, after them, the consumers it is still
  going to join, in the order of the vector. Each consumer keeps a log of what it popped.
\<close>

datatype worker = Popping | Scoring Document "Document list" | Exited

record pool =
  p_queue :: "Document blocking_queue"
  p_todo :: "Document list"
  p_joined :: nat
  p_workers :: "worker list"
  p_popped :: "Document list list"
  p_hits :: size_t

definition pool_init :: "nat \<Rightarrow> nat \<Rightarrow> Document list \<Rightarrow> pool" where
  "pool_init capacity n_threads pushes =
     \<lparr>p_queue = blocking_queue capacity, p_todo = pushes, p_joined = 0,
      p_workers = replicate n_threads Popping, p_popped = replicate n_threads [],
      p_hits = 0\<rparr>"

text \<open>
  One step of the orchestrating thread: the next \<^verbatim>\<open>queue.push\<close>, or, when nothing is left
  to push, the next \<^verbatim>\<open>consumer.join()\<close>, which returns once that consumer has exited.
  \<open>None\<close>: the thread waits (or has finished).
\<close>

definition orchestrator_step :: "pool \<Rightarrow> pool option" where
  "orchestrator_step s =
     (case p_todo s of
        item # rest \<Rightarrow>
          (case push item (p_queue s) of
             None \<Rightarrow> None
           | Some q \<Rightarrow> Some (s\<lparr>p_queue := q, p_todo := rest\<rparr>))
      | [] \<Rightarrow>
          if p_joined s < length (p_workers s) \<and> p_workers s ! p_joined s = Exited
          then Some (s\<lparr>p_joined := p_joined s + 1\<rparr>)
          else None)"

text \<open>
  One step of consumer \<open>i\<close>:
  \<^verbatim>\<open>while (true) {
    Document buffer = queue.pop();
    if (buffer.wordvec.empty()) break;
    for (auto const &document : documents) { ... ++hits; }
  }\<close>
\<close>

definition consumer_step :: "real \<Rightarrow> Document list \<Rightarrow> nat \<Rightarrow> pool \<Rightarrow> pool option" where
  "consumer_step threshold documents i s =
     (if i \<ge> length (p_workers s) then None
      else case p_workers s ! i of
        Popping \<Rightarrow>
          (case pop (p_queue s) of
             None \<Rightarrow> None
           | Some (buffer, q) \<Rightarrow>
               Some (s\<lparr>p_queue := q,
                       p_popped := (p_popped s)[i := p_popped s ! i @ [buffer]],
                       p_workers := (p_workers s)
                         [i := if wordvec buffer = [] then Exited else Scoring buffer documents]\<rparr>))
      | Scoring buffer rest \<Rightarrow>
          (case rest of
             [] \<Rightarrow> Some (s\<lparr>p_workers := (p_workers s)[i := Popping]\<rparr>)
           | document # rest' \<Rightarrow>
               Some (s\<lparr>p_hits := score_document threshold buffer (p_hits s) document,
                       p_workers := (p_workers s)[i := Scoring buffer rest']\<rparr>))
      | Exited \<Rightarrow> None)"

datatype thread = Orchestrator | Consumer nat

fun thread_step :: "real \<Rightarrow> Document list \<Rightarrow> thread \<Rightarrow> pool \<Rightarrow> pool option" where
  "thread_step threshold documents Orchestrator s = orchestrator_step s"
| "thread_step threshold documents (Consumer i) s = consumer_step threshold documents i s"

text \<open>
  An execution is a schedule, the threads in the order in which they take their steps.
  A schedule that asks a waiting thread to move is not an execution (\<open>None\<close>).
\<close>

fun run_schedule :: "real \<Rightarrow> Document list \<Rightarrow> thread list \<Rightarrow> pool \<Rightarrow> pool option" where
  "run_schedule threshold documents [] s = Some s"
| "run_schedule threshold documents (t # schedule) s =
     (case thread_step threshold documents t s of
        None \<Rightarrow> None
      | Some s' \<Rightarrow> run_schedule threshold documents schedule s')"

text \<open>A terminator marker is a document with an empty weight vector.\<close>

definition is_poison :: "Document \<Rightarrow> bool" where
  "is_poison d = (wordvec d = [])"


text \<open>
  Everything has been pushed and popped, every consumer has exited and has been joined.
\<close>

definition pool_done :: "pool \<Rightarrow> bool" where
  "pool_done s =
     (p_todo s = [] \<and> q_buffer (p_queue s) = [] \<and>
      p_joined s = length (p_workers s) \<and> list_all (\<lambda>w. w = Exited) (p_workers s))"

text \<open>
  The steps a pool still has in it at most: each item costs its push, its pop, one step
  for every reference document it is scored against and the step back to
  \<^verbatim>\<open>queue.pop()\<close>; each consumer costs its join.
\<close>

fun worker_steps :: "worker \<Rightarrow> nat" where
  "worker_steps Popping = 0"
| "worker_steps (Scoring buffer rest) = length rest + 1"
| "worker_steps Exited = 0"

definition pool_steps :: "Document list \<Rightarrow> pool \<Rightarrow> nat" where
  "pool_steps documents s =
     length (p_todo s) * (length documents + 3)
     + length (q_buffer (p_queue s)) * (length documents + 2)
     + sum_list (map worker_steps (p_workers s))
     + (length (p_workers s) - p_joined s)"

section \<open>Auxiliary notions for the statements\<close>

text \<open>The count a table holds for a term, 0 when the term has no entry.\<close>

definition df_count :: "df_table \<Rightarrow> NGram \<Rightarrow> size_t" where
  "df_count df t = (case df t of None \<Rightarrow> 0 | Some c \<Rightarrow> c)"

text \<open>
  The document the first loop stores for a vocab and its label (the buffer of the streaming
  loop before its transform is the same), and the corpus as read: vocabs and labels paired
  up in order.
\<close>

definition raw_document :: "vocab_map \<times> string \<Rightarrow> Document" where
  "raw_document p = \<lparr>url = snd p, vocab = fst p, wordvec = []\<rparr>"

definition raw_documents :: "vocab_map list \<Rightarrow> string list \<Rightarrow> Document list" where
  "raw_documents tokens urls = map raw_document (zip tokens urls)"

text \<open>
  The table and the document count that \<^verbatim>\<open>main\<close> has once the reference side is loaded.
\<close>

definition reference_table :: "vocab_map list \<Rightarrow> string list \<Rightarrow> df_table" where
  "reference_table tokens urls = aggregate_df Map.empty (raw_documents tokens urls)"

definition reference_count :: "vocab_map list \<Rightarrow> string list \<Rightarrow> size_t" where
  "reference_count tokens urls = of_nat (length (raw_documents tokens urls))"

text \<open>
  What the streaming loop makes of a candidate (the transform, then \<^verbatim>\<open>vocab.clear()\<close>),
  and the candidates that pass both guards of the loop.
\<close>

definition candidate :: "tfidf_fun \<Rightarrow> size_t \<Rightarrow> df_table \<Rightarrow> vocab_map \<times> string \<Rightarrow> Document" where
  "candidate tf document_count df p = transform tf document_count df (raw_document p)"

definition candidate_ok :: "tfidf_fun \<Rightarrow> size_t \<Rightarrow> df_table \<Rightarrow> vocab_map \<times> string \<Rightarrow> bool" where
  "candidate_ok tf document_count df p =
     (fst p \<noteq> [] \<and> wordvec (candidate tf document_count df p) \<noteq> [])"

text \<open>
  The state in which \<^verbatim>\<open>main\<close> enters the streaming loop when the reference side had
  a label for every document.
\<close>

definition references_loaded ::
  "tfidf_fun \<Rightarrow> vocab_map list \<Rightarrow> string list \<Rightarrow> string list \<Rightarrow> main_state" where
  "references_loaded tf tokens urls en_urls =
     \<lparr>st_documents =
        map (transform tf (reference_count tokens urls) (reference_table tokens urls))
            (raw_documents tokens urls),
      st_df = reference_table tokens urls, st_n = 0, st_pushed = [], st_joined = False,
      st_cerr = [ReadDocuments (reference_count tokens urls), AggregatedDF, CalculatedTFIDF],
      st_tokens_end = True, st_urls_left = drop (length tokens) urls,
      st_en_tokens_end = False, st_en_urls_left = en_urls\<rparr>"

text \<open>The one line the streaming loop writes to \<^verbatim>\<open>cerr\<close> before an exit status.\<close>

definition candidate_report :: "nat \<Rightarrow> size_t \<Rightarrow> report list" where
  "candidate_report status n =
     (if status = 3 then [UrlErrorEnglish n]
      else if status = 4 then [EmptyVocab n]
      else if status = 5 then [EmptyWordVec n]
      else [])"

text \<open>
  One transform to run the model on examples with: a term that the table does not have is
  dropped, every other term gets its count divided by its document frequency. The
  theorems below hold for every transform; this one only supplies concrete runs.
\<close>

definition example_tfidf :: tfidf_fun where
  "example_tfidf document document_count df =
     document\<lparr>wordvec :=
       map (\<lambda>(k, c). \<lparr>hash = k, tfidf = real (unat c) / real (unat (df_count df k))\<rparr>)
           (filter (\<lambda>(k, c). df k \<noteq> None) (vocab document))\<rparr>"

text \<open>
  A second transform for examples, which also uses the document count: the count of a
  term times the number of reference documents, divided by the document frequency.
\<close>

definition weighting_tfidf :: tfidf_fun where
  "weighting_tfidf document document_count df =
     document\<lparr>wordvec :=
       map (\<lambda>(k, c). \<lparr>hash = k,
              tfidf = real (unat c) * real (unat document_count) / real (unat (df_count df k))\<rparr>)
           (filter (\<lambda>(k, c). df k \<noteq> None) (vocab document))\<rparr>"

text \<open>
  The consumers that have not exited, and the invariant of the pool: the capacity and the
  number of consumers stay; the consumers joined so far have exited; what is in the buffer
  followed by what is still to be pushed is a run of work items followed by one poison
  for every consumer that has not exited, with no work item left once a consumer has
  exited; and a consumer has popped one poison if it has exited and none otherwise.
\<close>

definition live_workers :: "pool \<Rightarrow> nat" where
  "live_workers s = length (filter (\<lambda>w. w \<noteq> Exited) (p_workers s))"


text \<open>
  The hits a pool still owes: those of the work items not yet popped, and those of the
  reference documents that a scoring consumer has not yet come to.
\<close>

definition item_hits :: "real \<Rightarrow> Document list \<Rightarrow> Document \<Rightarrow> nat" where
  "item_hits threshold documents item =
     (if is_poison item then 0 else length (hit_documents threshold documents item))"

fun worker_owed :: "real \<Rightarrow> worker \<Rightarrow> nat" where
  "worker_owed threshold Popping = 0"
| "worker_owed threshold (Scoring buffer rest) = length (hit_documents threshold rest buffer)"
| "worker_owed threshold Exited = 0"

definition owed :: "real \<Rightarrow> Document list \<Rightarrow> pool \<Rightarrow> nat" where
  "owed threshold documents s =
     sum_list (map (item_hits threshold documents) (q_buffer (p_queue s) @ p_todo s))
     + sum_list (map (worker_owed threshold) (p_workers s))"


section \<open>Properties of the alignment score\<close>

lemma hashes_Cons: "hashes (x # xs) = insert (hash x) (hashes xs)"
  by (simp add: hashes_def)

lemma hashes_Nil: "hashes [] = {}"
  by (simp add: hashes_def)

lemma finite_hashes: "finite (hashes ws)"
  by (simp add: hashes_def)

lemma strict_head_notin:
  "sorted_wrt (<) (map hash (x # xs)) \<Longrightarrow> hash x \<notin> hashes xs"
  by (auto simp: hashes_def)

lemma strict_head_less:
  "sorted_wrt (<) (map hash (x # xs)) \<Longrightarrow> h \<in> hashes (x # xs) \<Longrightarrow> hash x \<le> h"
  by (auto simp: hashes_def)

lemma shared_sum_drop_left:
  assumes "hash x \<notin> hashes r"
  shows "(\<Sum>h \<in> hashes (x # l) \<inter> hashes r. weight_of (x # l) h * weight_of r h)
       = (\<Sum>h \<in> hashes l \<inter> hashes r. weight_of l h * weight_of r h)"
proof -
  have "hashes (x # l) \<inter> hashes r = hashes l \<inter> hashes r"
    using assms by (auto simp: hashes_Cons)
  moreover have "\<And>h. h \<in> hashes l \<inter> hashes r \<Longrightarrow> weight_of (x # l) h = weight_of l h"
    using assms by auto
  ultimately show ?thesis by simp
qed

lemma shared_sum_drop_right:
  assumes "hash y \<notin> hashes l"
  shows "(\<Sum>h \<in> hashes l \<inter> hashes (y # r). weight_of l h * weight_of (y # r) h)
       = (\<Sum>h \<in> hashes l \<inter> hashes r. weight_of l h * weight_of r h)"
proof -
  have "hashes l \<inter> hashes (y # r) = hashes l \<inter> hashes r"
    using assms by (auto simp: hashes_Cons)
  moreover have "\<And>h. h \<in> hashes l \<inter> hashes r \<Longrightarrow> weight_of (y # r) h = weight_of r h"
    using assms by auto
  ultimately show ?thesis by simp
qed

lemma shared_sum_both:
  assumes "hash x = hash y" "hash x \<notin> hashes l" "hash y \<notin> hashes r"
  shows "(\<Sum>h \<in> hashes (x # l) \<inter> hashes (y # r). weight_of (x # l) h * weight_of (y # r) h)
       = tfidf x * tfidf y + (\<Sum>h \<in> hashes l \<inter> hashes r. weight_of l h * weight_of r h)"
proof -
  have eq: "hashes (x # l) \<inter> hashes (y # r) = insert (hash x) (hashes l \<inter> hashes r)"
    using assms by (auto simp: hashes_Cons)
  have notin: "hash x \<notin> hashes l \<inter> hashes r"
    using assms by simp
  have fin: "finite (hashes l \<inter> hashes r)"
    by (simp add: finite_hashes)
  have same: "\<And>h. h \<in> hashes l \<inter> hashes r \<Longrightarrow>
      weight_of (x # l) h * weight_of (y # r) h = weight_of l h * weight_of r h"
    using assms by auto
  have "(\<Sum>h \<in> insert (hash x) (hashes l \<inter> hashes r). weight_of (x # l) h * weight_of (y # r) h)
      = weight_of (x # l) (hash x) * weight_of (y # r) (hash x)
        + (\<Sum>h \<in> hashes l \<inter> hashes r. weight_of (x # l) h * weight_of (y # r) h)"
    by (rule sum.insert [OF fin notin])
  also have "weight_of (x # l) (hash x) * weight_of (y # r) (hash x) = tfidf x * tfidf y"
    using assms(1) by simp
  also have "(\<Sum>h \<in> hashes l \<inter> hashes r. weight_of (x # l) h * weight_of (y # r) h)
      = (\<Sum>h \<in> hashes l \<inter> hashes r. weight_of l h * weight_of r h)"
    by (rule sum.cong [OF refl same])
  finally show ?thesis unfolding eq .
qed

lemma alignment_loop_sum:
  "sorted_wrt (<) (map hash l) \<Longrightarrow> sorted_wrt (<) (map hash r) \<Longrightarrow>
   alignment_loop s l r = s + (\<Sum>h \<in> hashes l \<inter> hashes r. weight_of l h * weight_of r h)"
proof (induction s l r rule: alignment_loop.induct)
  case (1 score r)
  then show ?case by (simp add: hashes_Nil)
next
  case (2 score x l)
  then show ?case by (simp add: hashes_Nil)
next
  case (3 score x l y r)
  have xl: "hash x \<notin> hashes l" using "3.prems"(1) by (rule strict_head_notin)
  have yr: "hash y \<notin> hashes r" using "3.prems"(2) by (rule strict_head_notin)
  have sl: "sorted_wrt (<) (map hash l)" using "3.prems"(1) by simp
  have sr: "sorted_wrt (<) (map hash r)" using "3.prems"(2) by simp
  consider (eq) "hash x = hash y" | (lt) "hash x < hash y" | (gt) "hash y < hash x"
    by (meson linorder_neqE)
  then show ?case
  proof cases
    case eq
    have "alignment_loop score (x # l) (y # r) = alignment_loop (score + tfidf x * tfidf y) l r"
      using eq by simp
    then show ?thesis
      using "3.IH"(1) [OF eq sl sr] shared_sum_both [OF eq xl yr] by (simp only: add.assoc)
  next
    case lt
    have ne: "hash x \<noteq> hash y" using lt by simp
    have nx: "hash x \<notin> hashes (y # r)"
      using lt strict_head_less [OF "3.prems"(2), of "hash x"] by auto
    have "alignment_loop score (x # l) (y # r) = alignment_loop score l (y # r)"
      using lt ne by simp
    then show ?thesis
      using "3.IH"(2) [OF ne lt sl "3.prems"(2)] shared_sum_drop_left [OF nx, of l] by (simp only:)
  next
    case gt
    have ne: "hash x \<noteq> hash y" using gt by simp
    have nl: "\<not> hash x < hash y" using gt by simp
    have ny: "hash y \<notin> hashes (x # l)"
      using gt strict_head_less [OF "3.prems"(1), of "hash y"] by auto
    have "alignment_loop score (x # l) (y # r) = alignment_loop score (x # l) r"
      using nl ne by simp
    then show ?thesis
      using "3.IH"(3) [OF ne nl "3.prems"(1) sr] shared_sum_drop_right [OF ny, of r] by (simp only:)
  qed
qed

lemma alignment_loop_sym: "alignment_loop s l r = alignment_loop s r l"
proof (induction s l r rule: alignment_loop.induct)
  case (1 score r)
  then show ?case by (cases r) simp_all
next
  case (2 score x l)
  then show ?case by simp
next
  case (3 score x l y r)
  then show ?case by (auto simp: mult.commute)
qed

lemma strict_sorted_hashes:
  "scored_wf d \<Longrightarrow> sorted_wrt (<) (map hash (wordvec d))"
  by (simp add: scored_wf_def strict_sorted_iff)

text \<open>
  C1. For scored documents \<open>a\<close> and \<open>b\<close> (weights ascending by term hash, no hash twice)
  the alignment score is the sum, over the term hashes that occur in both, of the product of
  the two weights of that hash, however the other hashes lie between them; and the score
  of \<open>a\<close> against \<open>b\<close> is the score of \<open>b\<close> against \<open>a\<close>.
\<close>

theorem calculate_alignment_shared_products:
  assumes "scored_wf a" and "scored_wf b"
  shows "calculate_alignment a b =
           (\<Sum>h \<in> hashes (wordvec a) \<inter> hashes (wordvec b).
              weight_of (wordvec a) h * weight_of (wordvec b) h)
         \<and> calculate_alignment a b = calculate_alignment b a"
proof
  show "calculate_alignment a b =
          (\<Sum>h \<in> hashes (wordvec a) \<inter> hashes (wordvec b).
             weight_of (wordvec a) h * weight_of (wordvec b) h)"
    unfolding calculate_alignment_def
    using alignment_loop_sum [OF strict_sorted_hashes [OF assms(1)] strict_sorted_hashes [OF assms(2)], of 0]
    by simp
  show "calculate_alignment a b = calculate_alignment b a"
    unfolding calculate_alignment_def by (rule alignment_loop_sym)
qed

text \<open>
  The example of the specification: \<open>a = [(1, 0.5), (3, 0.2), (5, 0.9)]\<close> and
  \<open>b = [(2, 0.4), (3, 0.1), (5, 0.3)]\<close> share the hashes 3 and 5, and score
  \<open>0.2 * 0.1 + 0.9 * 0.3 = 0.29\<close> in either order.
\<close>

theorem calculate_alignment_shared_products_witness:
  "scored_wf \<lparr>url = [], vocab = [], wordvec =
       [\<lparr>hash = 1, tfidf = 0.5\<rparr>, \<lparr>hash = 3, tfidf = 0.2\<rparr>, \<lparr>hash = 5, tfidf = 0.9\<rparr>]\<rparr>
   \<and> scored_wf \<lparr>url = [], vocab = [], wordvec =
       [\<lparr>hash = 2, tfidf = 0.4\<rparr>, \<lparr>hash = 3, tfidf = 0.1\<rparr>, \<lparr>hash = 5, tfidf = 0.3\<rparr>]\<rparr>
   \<and> calculate_alignment
       \<lparr>url = [], vocab = [], wordvec =
          [\<lparr>hash = 2, tfidf = 0.4\<rparr>, \<lparr>hash = 3, tfidf = 0.1\<rparr>, \<lparr>hash = 5, tfidf = 0.3\<rparr>]\<rparr>
       \<lparr>url = [], vocab = [], wordvec =
          [\<lparr>hash = 1, tfidf = 0.5\<rparr>, \<lparr>hash = 3, tfidf = 0.2\<rparr>, \<lparr>hash = 5, tfidf = 0.9\<rparr>]\<rparr>
     = 0.29"
proof -
  let ?a = "\<lparr>url = [], vocab = [], wordvec =
       [\<lparr>hash = 1, tfidf = 0.5\<rparr>, \<lparr>hash = 3, tfidf = 0.2\<rparr>, \<lparr>hash = 5, tfidf = 0.9\<rparr>]\<rparr>"
  let ?b = "\<lparr>url = [], vocab = [], wordvec =
       [\<lparr>hash = 2, tfidf = 0.4\<rparr>, \<lparr>hash = 3, tfidf = 0.1\<rparr>, \<lparr>hash = 5, tfidf = 0.3\<rparr>]\<rparr>"
  have a: "scored_wf ?a" by (simp add: scored_wf_def)
  have b: "scored_wf ?b" by (simp add: scored_wf_def)
  have ab: "calculate_alignment ?a ?b = 0.29"
    by (simp add: calculate_alignment_def)
  from calculate_alignment_shared_products [OF a b] ab
  have "calculate_alignment ?b ?a = 0.29" by simp
  with a b show ?thesis by simp
qed

section \<open>Properties of the document-frequency pass\<close>

lemma df_increment_apply:
  "df_increment df k t = (if t = k then Some (df_count df t + 1) else df t)"
  by (simp add: df_increment_def df_count_def)

lemma fold_increment:
  "distinct (map fst es) \<Longrightarrow>
   foldl (\<lambda>df entry. df_increment df (fst entry)) df es t =
     (if t \<in> fst ` set es then Some (df_count df t + 1) else df t)"
proof (induction es arbitrary: df)
  case Nil
  then show ?case by simp
next
  case (Cons e es)
  have d: "distinct (map fst es)" and n: "fst e \<notin> fst ` set es"
    using Cons.prems by auto
  show ?case
  proof (cases "t = fst e")
    case True
    then show ?thesis using Cons.IH [OF d] n by (simp add: df_increment_apply)
  next
    case False
    then show ?thesis using Cons.IH [OF d]
      by (auto simp: df_increment_apply df_count_def)
  qed
qed

lemma vocab_wf_distinct: "vocab_wf d \<Longrightarrow> distinct (map fst (vocab d))"
  by (simp add: vocab_wf_def)

lemma df_add_document_apply:
  "vocab_wf d \<Longrightarrow>
   df_add_document df d t = (if t \<in> terms_of d then Some (df_count df t + 1) else df t)"
  unfolding df_add_document_def terms_of_def
  by (rule fold_increment) (rule vocab_wf_distinct)

lemma aggregate_df_apply:
  "\<forall>d \<in> set documents. vocab_wf d \<Longrightarrow>
   aggregate_df df documents t =
     (if containing t documents = [] then df t
      else Some (df_count df t + of_nat (length (containing t documents))))"
proof (induction documents arbitrary: df)
  case Nil
  then show ?case by (simp add: aggregate_df_def containing_def)
next
  case (Cons d documents)
  have wf: "vocab_wf d" and rest: "\<forall>d \<in> set documents. vocab_wf d"
    using Cons.prems by auto
  have step: "aggregate_df df (d # documents) t = aggregate_df (df_add_document df d) documents t"
    by (simp add: aggregate_df_def)
  show ?case
    unfolding step Cons.IH [OF rest]
    by (simp add: df_add_document_apply [OF wf] containing_def df_count_def)
qed

lemma length_containing_le: "length (containing t documents) \<le> length documents"
  by (simp add: containing_def)

text \<open>
  C2. After the aggregation pass the table holds, for every term hash, the number of
  reference documents (counted by their place in the corpus) whose vocab has the term,
  and no entry for a term that no document has. The number depends only on which vocabs
  hold the term, not on the occurrence counts stored with it: the inner loop over one
  document adds 1 to the count of each term of its vocab and nothing to any other count.
  The pass leaves the documents as they are. (A \<^verbatim>\<open>std::vector\<close> has
  fewer than \<open>2 ^ 64\<close> elements, and the keys of a map are distinct.)
\<close>

theorem aggregate_pass_counts:
  assumes "list_all vocab_wf (st_documents s)"
    and "length (st_documents s) < 2 ^ 64"
  shows "map_option unat (st_df (aggregate_pass s) t) =
           (if containing t (st_documents s) = [] then None
            else Some (length (containing t (st_documents s))))
         \<and> (vocab_wf d \<longrightarrow>
              df_count (df_add_document df d) t = df_count df t + (if t \<in> terms_of d then 1 else 0))
         \<and> st_documents (aggregate_pass s) = st_documents s"
proof -
  have wf: "\<forall>d \<in> set (st_documents s). vocab_wf d"
    using assms(1) by (simp add: list_all_iff)
  have one: "vocab_wf d \<longrightarrow>
      df_count (df_add_document df d) t = df_count df t + (if t \<in> terms_of d then 1 else 0)"
    by (simp add: df_add_document_apply df_count_def)
  have "length (containing t (st_documents s)) < 2 ^ 64"
    using length_containing_le [of t "st_documents s"] assms(2) by simp
  then have "unat (of_nat (length (containing t (st_documents s))) :: size_t)
      = length (containing t (st_documents s))"
    by (simp add: unat_of_nat)
  then have "map_option unat (st_df (aggregate_pass s) t) =
           (if containing t (st_documents s) = [] then None
            else Some (length (containing t (st_documents s))))"
    by (simp add: aggregate_pass_def aggregate_df_apply [OF wf] df_count_def)
  moreover have "st_documents (aggregate_pass s) = st_documents s"
    by (simp add: aggregate_pass_def)
  ultimately show ?thesis using one by blast
qed

text \<open>
  Three reference documents; term 7 occurs five times in the first, once in the second and
  not in the third: its document frequency is 2.
\<close>

theorem aggregate_pass_counts_witness:
  "list_all vocab_wf
     [\<lparr>url = ''a'', vocab = [(7, 5), (9, 1)], wordvec = []\<rparr>,
      \<lparr>url = ''b'', vocab = [(7, 1)], wordvec = []\<rparr>,
      \<lparr>url = ''c'', vocab = [(8, 2)], wordvec = []\<rparr>]
   \<and> map_option unat (st_df (aggregate_pass ((main_init [] [])\<lparr>st_documents :=
       [\<lparr>url = ''a'', vocab = [(7, 5), (9, 1)], wordvec = []\<rparr>,
        \<lparr>url = ''b'', vocab = [(7, 1)], wordvec = []\<rparr>,
        \<lparr>url = ''c'', vocab = [(8, 2)], wordvec = []\<rparr>]\<rparr>)) 7) = Some 2
   \<and> df_count (df_add_document Map.empty
         \<lparr>url = ''a'', vocab = [(7, 5), (9, 1)], wordvec = []\<rparr>) 7 = 1"
proof -
  let ?a = "\<lparr>url = ''a'', vocab = [(7, 5), (9, 1)], wordvec = []\<rparr>"
  let ?docs = "[?a, \<lparr>url = ''b'', vocab = [(7, 1)], wordvec = []\<rparr>,
      \<lparr>url = ''c'', vocab = [(8, 2)], wordvec = []\<rparr>]"
  let ?s = "(main_init [] [])\<lparr>st_documents := ?docs\<rparr>"
  have wf: "list_all vocab_wf (st_documents ?s)"
    by (simp add: vocab_wf_def)
  have len: "length (st_documents ?s) < 2 ^ 64"
    by simp
  have a: "vocab_wf ?a" and in_a: "7 \<in> terms_of ?a"
    by (simp_all add: vocab_wf_def terms_of_def)
  have two: "length (containing 7 (st_documents ?s)) = 2"
    by (simp add: containing_def terms_of_def)
  note inst = aggregate_pass_counts [OF wf len, of 7 ?a Map.empty]
  have "map_option unat (st_df (aggregate_pass ?s) 7) = Some 2"
    using inst two
    by (simp only: length_0_conv [symmetric] two) simp
  moreover have "df_count (df_add_document Map.empty ?a) 7 = 1"
    using inst a in_a by (simp add: df_count_def)
  ultimately show ?thesis using wf by simp
qed

section \<open>Properties of the bounded queue\<close>

lemma push_buffer:
  "push item q = Some q' \<Longrightarrow> q_buffer q' = q_buffer q @ [item]"
  by (auto simp: push_def split: if_splits)

lemma push_room:
  "push item q = Some q' \<Longrightarrow> length (q_buffer q) < q_size q"
  by (auto simp: push_def split: if_splits)

lemma push_None: "push item q = None \<longleftrightarrow> q_size q \<le> length (q_buffer q)"
  by (simp add: push_def)

lemma pop_buffer:
  "pop q = Some (v, q') \<Longrightarrow> q_buffer q = v # q_buffer q'"
  by (auto simp: pop_def split: list.splits)

lemma pop_None: "pop q = None \<longleftrightarrow> q_buffer q = []"
  by (simp add: pop_def split: list.splits)

lemma run_ops_conservation:
  "run_ops ops h = Some h' \<Longrightarrow>
   h_pushed h = h_popped h @ q_buffer (h_queue h) \<Longrightarrow>
   h_pushed h' = h_popped h' @ q_buffer (h_queue h')"
proof (induction ops h rule: run_ops.induct)
  case (1 h)
  then show ?case by simp
next
  case (2 item ops h)
  from "2.prems"(1) obtain q where q: "push item (h_queue h) = Some q"
    and run: "run_ops ops (h\<lparr>h_queue := q, h_pushed := h_pushed h @ [item]\<rparr>) = Some h'"
    by (auto split: option.splits)
  from q have "q_buffer q = q_buffer (h_queue h) @ [item]"
    by (rule push_buffer)
  with "2.prems"(2) show ?case
    using "2.IH" [OF q run] by simp
next
  case (3 ops h)
  from "3.prems"(1) obtain v q where q: "pop (h_queue h) = Some (v, q)"
    and run: "run_ops ops (h\<lparr>h_queue := q, h_popped := h_popped h @ [v]\<rparr>) = Some h'"
    by (auto split: option.splits)
  from q have "q_buffer (h_queue h) = v # q_buffer q"
    by (rule pop_buffer)
  with "3.prems"(2) show ?case
    using "3.IH" [OF q refl run] by simp
qed

lemma push_size: "push item q = Some q' \<Longrightarrow> q_size q' = q_size q"
  by (auto simp: push_def split: if_splits)

lemma pop_size: "pop q = Some (v, q') \<Longrightarrow> q_size q' = q_size q"
  by (auto simp: pop_def split: list.splits)

lemma run_ops_size:
  "run_ops ops h = Some h' \<Longrightarrow> q_size (h_queue h') = q_size (h_queue h)"
proof (induction ops h rule: run_ops.induct)
  case (1 h)
  then show ?case by simp
next
  case (2 item ops h)
  from "2.prems"(1) obtain q where q: "push item (h_queue h) = Some q"
    and run: "run_ops ops (h\<lparr>h_queue := q, h_pushed := h_pushed h @ [item]\<rparr>) = Some h'"
    by (auto split: option.splits)
  show ?case using "2.IH" [OF q run] push_size [OF q] by simp
next
  case (3 ops h)
  from "3.prems"(1) obtain v q where q: "pop (h_queue h) = Some (v, q)"
    and run: "run_ops ops (h\<lparr>h_queue := q, h_popped := h_popped h @ [v]\<rparr>) = Some h'"
    by (auto split: option.splits)
  show ?case using "3.IH" [OF q refl run] pop_size [OF q] by simp
qed

lemma run_ops_bounded:
  "run_ops ops h = Some h' \<Longrightarrow>
   length (q_buffer (h_queue h)) \<le> q_size (h_queue h) \<Longrightarrow>
   length (q_buffer (h_queue h')) \<le> q_size (h_queue h')"
proof (induction ops h rule: run_ops.induct)
  case (1 h)
  then show ?case by simp
next
  case (2 item ops h)
  from "2.prems"(1) obtain q where q: "push item (h_queue h) = Some q"
    and run: "run_ops ops (h\<lparr>h_queue := q, h_pushed := h_pushed h @ [item]\<rparr>) = Some h'"
    by (auto split: option.splits)
  from q have "length (q_buffer q) \<le> q_size q"
    using push_buffer [OF q] push_room [OF q] push_size [OF q] by simp
  then show ?case using "2.IH" [OF q run] by simp
next
  case (3 ops h)
  from "3.prems"(1) obtain v q where q: "pop (h_queue h) = Some (v, q)"
    and run: "run_ops ops (h\<lparr>h_queue := q, h_popped := h_popped h @ [v]\<rparr>) = Some h'"
    by (auto split: option.splits)
  from "3.prems"(2) have "length (q_buffer q) \<le> q_size q"
    using pop_buffer [OF q] pop_size [OF q] by simp
  then show ?case using "3.IH" [OF q refl run] by simp
qed

text \<open>Without a pop the buffer does not shrink.\<close>

lemma run_ops_no_pop:
  "run_ops ops h = Some h' \<Longrightarrow> Pop \<notin> set ops \<Longrightarrow>
   length (q_buffer (h_queue h)) \<le> length (q_buffer (h_queue h'))"
proof (induction ops h rule: run_ops.induct)
  case (1 h)
  then show ?case by simp
next
  case (2 item ops h)
  from "2.prems"(1) obtain q where q: "push item (h_queue h) = Some q"
    and run: "run_ops ops (h\<lparr>h_queue := q, h_pushed := h_pushed h @ [item]\<rparr>) = Some h'"
    by (auto split: option.splits)
  have "length (q_buffer (h_queue h)) \<le> length (q_buffer q)"
    using push_buffer [OF q] by simp
  then show ?case using "2.IH" [OF q run] "2.prems"(2) by simp
next
  case (3 ops h)
  then show ?case by simp
qed

text \<open>
  C4, as stated, at a history that ends with an item in the buffer: after a single push
  the popped items are not the pushed items.
\<close>

theorem queue_popped_not_pushed_counterexample:
  "map_option (\<lambda>h. mset (h_popped h) = mset (h_pushed h))
     (run_ops [Push (1::nat)] (history_init 1)) = Some False"
  by (simp add: history_init_def blocking_queue_def push_def)

text \<open>
  C4, amended. In every history of a queue that started empty no item is lost or
  duplicated: the items popped so far, followed by the items in the buffer, are the items
  pushed so far, in the order in which they were pushed. So the popped items are the
  pushed items, as multisets and in order, whenever the buffer is empty, and a pop
  returns the oldest item of the buffer.
\<close>

theorem queue_conservation:
  assumes "run_ops ops (history_init capacity) = Some h"
  shows "h_pushed h = h_popped h @ q_buffer (h_queue h)
       \<and> mset (h_pushed h) = mset (h_popped h) + mset (q_buffer (h_queue h))
       \<and> (q_buffer (h_queue h) = [] \<longrightarrow> h_popped h = h_pushed h)
       \<and> (\<forall>v q. pop (h_queue h) = Some (v, q) \<longrightarrow>
             v = hd (q_buffer (h_queue h)) \<and> q_buffer q = tl (q_buffer (h_queue h)))"
proof -
  have eq: "h_pushed h = h_popped h @ q_buffer (h_queue h)"
    using run_ops_conservation [OF assms] by (simp add: history_init_def blocking_queue_def)
  then have "mset (h_pushed h) = mset (h_popped h) + mset (q_buffer (h_queue h))"
    by simp
  moreover have "\<forall>v q. pop (h_queue h) = Some (v, q) \<longrightarrow>
             v = hd (q_buffer (h_queue h)) \<and> q_buffer q = tl (q_buffer (h_queue h))"
    by (auto dest: pop_buffer)
  ultimately show ?thesis using eq by simp
qed

theorem queue_conservation_witness:
  "run_ops [Push (1::nat), Push 2, Pop, Push 3, Pop, Pop] (history_init 2) =
     Some \<lparr>h_queue = \<lparr>q_size = 2, q_buffer = []\<rparr>, h_pushed = [1, 2, 3], h_popped = [1, 2, 3]\<rparr>
   \<and> map_option (\<lambda>h. mset (h_popped h) = mset (h_pushed h))
       (run_ops [Push (1::nat), Push 2, Pop, Push 3, Pop, Pop] (history_init 2)) = Some True"
proof -
  let ?h = "\<lparr>h_queue = \<lparr>q_size = 2, q_buffer = []\<rparr>, h_pushed = [1, 2, 3::nat],
            h_popped = [1, 2, 3]\<rparr>"
  have run: "run_ops [Push (1::nat), Push 2, Pop, Push 3, Pop, Pop] (history_init 2) = Some ?h"
    by (simp add: history_init_def blocking_queue_def push_def pop_def)
  have drained: "q_buffer (h_queue ?h) = []" by simp
  from queue_conservation [OF run] drained
  have "h_popped ?h = h_pushed ?h"
    by blast
  then have "mset (h_popped ?h) = mset (h_pushed ?h)" by simp
  with run show ?thesis by simp
qed

text \<open>
  C5. The capacity of a queue is the one it was constructed with, and in every history
  of a queue that started empty the buffer holds at most that many items. A push waits
  exactly while the buffer holds at least capacity items, a pop exactly while the buffer is
  empty, and a push that has to wait can take effect only after a pop has.
\<close>

theorem queue_bounded:
  assumes "run_ops ops (history_init capacity) = Some h"
  shows "q_size (h_queue h) = capacity
       \<and> length (q_buffer (h_queue h)) \<le> capacity
       \<and> (\<forall>item. (push item (h_queue h) = None) = (capacity \<le> length (q_buffer (h_queue h))))
       \<and> ((pop (h_queue h) = None) = (q_buffer (h_queue h) = []))
       \<and> (\<forall>item later h'. push item (h_queue h) = None \<longrightarrow> run_ops later h = Some h' \<longrightarrow>
             push item (h_queue h') \<noteq> None \<longrightarrow> Pop \<in> set later)"
proof -
  have size: "q_size (h_queue h) = capacity"
    using run_ops_size [OF assms] by (simp add: history_init_def blocking_queue_def)
  have bound: "length (q_buffer (h_queue h)) \<le> capacity"
    using run_ops_bounded [OF assms] size by (simp add: history_init_def blocking_queue_def)
  have blocked: "Pop \<in> set later"
    if "push item (h_queue h) = None" "run_ops later h = Some h'" "push item (h_queue h') \<noteq> None"
    for item :: 'a and later h'
  proof (rule ccontr)
    assume "Pop \<notin> set later"
    from run_ops_no_pop [OF that(2) this]
    have "length (q_buffer (h_queue h)) \<le> length (q_buffer (h_queue h'))" .
    moreover have "q_size (h_queue h') = q_size (h_queue h)"
      by (rule run_ops_size [OF that(2)])
    ultimately show False using that(1,3) by (simp add: push_None)
  qed
  show ?thesis
    using size bound blocked by (simp add: push_None pop_None)
qed

theorem queue_bounded_witness:
  "run_ops [Push (1::nat)] (history_init 1) =
     Some \<lparr>h_queue = \<lparr>q_size = 1, q_buffer = [1]\<rparr>, h_pushed = [1], h_popped = []\<rparr>
   \<and> push (2::nat) \<lparr>q_size = 1, q_buffer = [1]\<rparr> = None
   \<and> Pop \<in> set [Pop :: nat queue_op]"
proof -
  let ?h = "\<lparr>h_queue = \<lparr>q_size = 1, q_buffer = [1::nat]\<rparr>, h_pushed = [1], h_popped = []\<rparr>"
  let ?h' = "\<lparr>h_queue = \<lparr>q_size = 1, q_buffer = []\<rparr>, h_pushed = [1::nat], h_popped = [1]\<rparr>"
  have run: "run_ops [Push (1::nat)] (history_init 1) = Some ?h"
    by (simp add: history_init_def blocking_queue_def push_def)
  have waits: "push (2::nat) (h_queue ?h) = None"
    by (simp add: push_def)
  have later: "run_ops [Pop] ?h = Some ?h'"
    by (simp add: pop_def)
  have goes: "push (2::nat) (h_queue ?h') \<noteq> None"
    by (simp add: push_def)
  from queue_bounded [OF run] waits later goes
  have "Pop \<in> set [Pop :: nat queue_op]"
    by blast
  with run waits show ?thesis by simp
qed

section \<open>Properties of the scoring loop\<close>

lemma score_fold:
  "foldl (score_document threshold buffer) hits documents =
     hits + of_nat (length (filter (\<lambda>document. calculate_alignment document buffer \<ge> threshold)
                                 documents))"
  by (induction documents arbitrary: hits) (simp_all add: score_document_def)

text \<open>
  After the loop the counter has gone up (on \<^verbatim>\<open>size_t\<close>) by the number of reference
  documents that score at least the threshold; a document below the threshold adds nothing.
\<close>

lemma score_candidate_count:
  "score_candidate threshold documents buffer hits =
     hits + of_nat (length (hit_documents threshold documents buffer))
   \<and> score_candidate threshold (documents @ [document]) buffer hits =
     (if calculate_alignment document buffer < threshold
      then score_candidate threshold documents buffer hits
      else score_candidate threshold documents buffer hits + 1)"
  by (simp add: score_candidate_def hit_documents_def score_fold score_document_def not_less)

section \<open>Properties of the orchestrating thread\<close>

subsection \<open>The two loops, step by step\<close>

lemma raw_documents_Cons:
  "raw_documents (v # tokens) (u # urls) = \<lparr>url = u, vocab = v, wordvec = []\<rparr> # raw_documents tokens urls"
  by (simp add: raw_documents_def raw_document_def)

lemma raw_documents_Nil [simp]: "raw_documents [] urls = []" "raw_documents tokens [] = []"
  by (simp_all add: raw_documents_def)

lemma length_raw_documents: "length (raw_documents tokens urls) = min (length tokens) (length urls)"
  by (simp add: raw_documents_def)

lemma read_documents_ok:
  "length tokens \<le> length (st_urls_left s) \<Longrightarrow>
   read_documents tokens s =
     (None, s\<lparr>st_documents := st_documents s @ raw_documents tokens (st_urls_left s),
              st_tokens_end := True,
              st_urls_left := drop (length tokens) (st_urls_left s)\<rparr>)"
proof (induction tokens arbitrary: s)
  case Nil
  then show ?case by simp
next
  case (Cons v tokens)
  then obtain u urls where u: "st_urls_left s = u # urls"
    by (cases "st_urls_left s") auto
  with Cons.prems have len: "length tokens \<le> length urls" by simp
  show ?case
    using Cons.IH [of "s\<lparr>st_urls_left := urls,
               st_documents := st_documents s @ [\<lparr>url = u, vocab = v, wordvec = []\<rparr>]\<rparr>"] len u
    by (simp add: raw_documents_Cons)
qed

lemma read_documents_fail:
  "length (st_urls_left s) < length tokens \<Longrightarrow>
   read_documents tokens s =
     (Some 2,
      log_cerr (UrlErrorTranslated (of_nat (length (st_documents s) + length (st_urls_left s))))
        (s\<lparr>st_documents := st_documents s @ raw_documents tokens (st_urls_left s),
           st_urls_left := []\<rparr>))"
proof (induction tokens arbitrary: s)
  case Nil
  then show ?case by simp
next
  case (Cons v tokens)
  show ?case
  proof (cases "st_urls_left s")
    case Nil
    then show ?thesis by (simp add: log_cerr_def)
  next
    case (Cons u urls)
    with Cons.prems have len: "length urls < length tokens" by simp
    show ?thesis
      using Cons.IH [of "s\<lparr>st_urls_left := urls,
               st_documents := st_documents s @ [\<lparr>url = u, vocab = v, wordvec = []\<rparr>]\<rparr>"] len Cons
      by (simp add: raw_documents_Cons log_cerr_def)
  qed
qed

lemma buffer_raw: "Document_init\<lparr>vocab := v, url := u\<rparr> = raw_document (v, u)"
  by (simp add: Document_init_def raw_document_def)

lemma candidate_loop_frame:
  "candidate_loop tf W toks s = (status, s') \<Longrightarrow>
   st_df s' = st_df s \<and> st_documents s' = st_documents s
   \<and> st_tokens_end s' = st_tokens_end s \<and> st_urls_left s' = st_urls_left s"
proof (induction tf W toks s rule: candidate_loop.induct)
  case (1 tf W s)
  then show ?case by (auto simp: stop_def)
next
  case (2 tf W v toks s)
  show ?case
  proof (cases "st_en_urls_left s")
    case Nil
    with "2.prems" show ?thesis by (auto simp: stop_def log_cerr_def)
  next
    case (Cons u urls)
    let ?s = "s\<lparr>st_en_urls_left := urls, st_n := st_n s + 1\<rparr>"
    let ?b = "transform tf (of_nat (length (st_documents ?s))) (st_df ?s) (Document_init\<lparr>vocab := v, url := u\<rparr>)"
    consider (empty) "v = []" | (vec) "v \<noteq> []" "wordvec ?b = []" | (ok) "v \<noteq> []" "wordvec ?b \<noteq> []"
      by blast
    then show ?thesis
    proof cases
      case empty
      with "2.prems" Cons show ?thesis by (auto simp: stop_def log_cerr_def)
    next
      case vec
      with "2.prems" Cons show ?thesis by (auto simp: stop_def log_cerr_def Let_def)
    next
      case ok
      have "candidate_loop tf W toks (?s\<lparr>st_pushed := st_pushed ?s @ [?b]\<rparr>) = (status, s')"
        using "2.prems" Cons ok by (simp add: Let_def)
      from "2.IH" [OF Cons refl refl _ refl _ this] ok
      show ?thesis by simp
    qed
  qed
qed


lemma vocab_raw [simp]: "vocab (raw_document (v, u)) = v"
  by (simp add: raw_document_def)

lemma candidate_loop_no_url:
  "st_en_urls_left s = [] \<Longrightarrow>
   candidate_loop tf W (v # toks) s = (3, stop W (log_cerr (UrlErrorEnglish (st_n s)) s))"
  by simp

lemma candidate_loop_empty_vocab:
  "st_en_urls_left s = u # urls \<Longrightarrow>
   candidate_loop tf W ([] # toks) s =
     (4, stop W (log_cerr (EmptyVocab (st_n s + 1))
                   (s\<lparr>st_en_urls_left := urls, st_n := st_n s + 1\<rparr>)))"
  by (simp add: Document_init_def)

lemma candidate_loop_empty_wordvec:
  "st_en_urls_left s = u # urls \<Longrightarrow> v \<noteq> [] \<Longrightarrow>
   wordvec (candidate tf (of_nat (length (st_documents s))) (st_df s) (v, u)) = [] \<Longrightarrow>
   candidate_loop tf W (v # toks) s =
     (5, stop W (log_cerr (EmptyWordVec (st_n s + 1))
                   (s\<lparr>st_en_urls_left := urls, st_n := st_n s + 1\<rparr>)))"
  by (simp add: candidate_def buffer_raw Let_def)

lemma candidate_loop_ok:
  "st_en_urls_left s = u # urls \<Longrightarrow>
   candidate_ok tf (of_nat (length (st_documents s))) (st_df s) (v, u) \<Longrightarrow>
   candidate_loop tf W (v # toks) s =
     candidate_loop tf W toks
       (s\<lparr>st_en_urls_left := urls, st_n := st_n s + 1,
          st_pushed := st_pushed s @ [candidate tf (of_nat (length (st_documents s))) (st_df s) (v, u)]\<rparr>)"
  by (simp add: candidate_ok_def candidate_def buffer_raw Let_def)

declare candidate_loop.simps(2) [simp del]

lemma candidate_loop_good:
  "list_all (candidate_ok tf (of_nat (length (st_documents s))) (st_df s)) (zip good (st_en_urls_left s)) \<Longrightarrow>
   length good \<le> length (st_en_urls_left s) \<Longrightarrow>
   candidate_loop tf W (good @ rest) s =
     candidate_loop tf W rest
       (s\<lparr>st_en_urls_left := drop (length good) (st_en_urls_left s),
          st_n := st_n s + of_nat (length good),
          st_pushed := st_pushed s @
            map (candidate tf (of_nat (length (st_documents s))) (st_df s))
                (zip good (st_en_urls_left s))\<rparr>)"
proof (induction good arbitrary: s)
  case Nil
  then show ?case by simp
next
  case (Cons v good)
  then obtain u urls where u: "st_en_urls_left s = u # urls"
    by (cases "st_en_urls_left s") auto
  let ?N = "of_nat (length (st_documents s)) :: size_t"
  let ?s = "s\<lparr>st_en_urls_left := urls, st_n := st_n s + 1,
          st_pushed := st_pushed s @ [candidate tf ?N (st_df s) (v, u)]\<rparr>"
  have ok: "candidate_ok tf ?N (st_df s) (v, u)"
    and rest_ok: "list_all (candidate_ok tf (of_nat (length (st_documents ?s))) (st_df ?s)) (zip good (st_en_urls_left ?s))"
    and len: "length good \<le> length (st_en_urls_left ?s)"
    using Cons.prems u by simp_all
  have "candidate_loop tf W ((v # good) @ rest) s = candidate_loop tf W (good @ rest) ?s"
    using candidate_loop_ok [OF u ok] by simp
  also have "\<dots> = candidate_loop tf W rest
       (?s\<lparr>st_en_urls_left := drop (length good) (st_en_urls_left ?s),
          st_n := st_n ?s + of_nat (length good),
          st_pushed := st_pushed ?s @
            map (candidate tf (of_nat (length (st_documents ?s))) (st_df ?s))
                (zip good (st_en_urls_left ?s))\<rparr>)"
    by (rule Cons.IH [OF rest_ok len])
  finally show ?case using u by (simp add: add.assoc)
qed

lemma main_loaded:
  "length tokens \<le> length urls \<Longrightarrow>
   main tf tokens urls en_tokens en_urls =
     candidate_loop tf n_threads_main en_tokens (references_loaded tf tokens urls en_urls)"
  by (simp add: main_def read_documents_ok main_init_def log_cerr_def aggregate_pass_def
      transform_documents_def references_loaded_def reference_table_def reference_count_def)

lemma main_unpaired:
  "length urls < length tokens \<Longrightarrow>
   main tf tokens urls en_tokens en_urls =
     (2, (main_init [] en_urls)
           \<lparr>st_documents := raw_documents tokens urls,
              st_cerr := [UrlErrorTranslated (of_nat (length urls))]\<rparr>)"
  by (simp add: main_def read_documents_fail main_init_def log_cerr_def)

lemma candidate_iteration_cases:
  obtains (no_url) "st_en_urls_left s = []"
  | (empty_vocab) u urls where "st_en_urls_left s = u # urls" "v = []"
  | (empty_wordvec) u urls where "st_en_urls_left s = u # urls" "v \<noteq> []"
      "wordvec (candidate tf (of_nat (length (st_documents s))) (st_df s) (v, u)) = []"
  | (ok) u urls where "st_en_urls_left s = u # urls"
      "candidate_ok tf (of_nat (length (st_documents s))) (st_df s) (v, u)"
  by (cases "st_en_urls_left s") (auto simp: candidate_ok_def)

lemma candidate_loop_outcome:
  "candidate_loop tf W toks s = (status, s') \<Longrightarrow>
   status \<in> {0, 3, 4, 5}
   \<and> (status = 3 \<longrightarrow> length (st_en_urls_left s) < length toks)
   \<and> (status = 0 \<longrightarrow> st_en_tokens_end s' \<and> st_cerr s' = st_cerr s
         \<and> length toks \<le> length (st_en_urls_left s))
   \<and> (status \<noteq> 0 \<longrightarrow> st_en_tokens_end s' = st_en_tokens_end s)
   \<and> st_joined s'"
proof (induction toks arbitrary: s)
  case Nil
  then show ?case by (auto simp: stop_def)
next
  case (Cons v toks)
  show ?case
  proof (cases rule: candidate_iteration_cases [where s = s and v = v and tf = tf])
    case no_url
    with Cons.prems show ?thesis
      by (auto simp: candidate_loop_no_url stop_def log_cerr_def)
  next
    case (empty_vocab u urls)
    with Cons.prems show ?thesis
      by (auto simp: candidate_loop_empty_vocab stop_def log_cerr_def)
  next
    case (empty_wordvec u urls)
    with Cons.prems show ?thesis
      by (auto simp: candidate_loop_empty_wordvec stop_def log_cerr_def)
  next
    case (ok u urls)
    from Cons.prems have "candidate_loop tf W toks
       (s\<lparr>st_en_urls_left := urls, st_n := st_n s + 1,
          st_pushed := st_pushed s @ [candidate tf (of_nat (length (st_documents s))) (st_df s) (v, u)]\<rparr>)
       = (status, s')"
      by (simp only: candidate_loop_ok [OF ok])
    from Cons.IH [OF this] ok(1) show ?thesis by simp
  qed
qed

lemma candidate_loop_surplus:
  "candidate_loop tf W toks s = (0, s') \<Longrightarrow>
   candidate_loop tf W toks
     (s\<lparr>st_urls_left := st_urls_left s @ x, st_en_urls_left := st_en_urls_left s @ y\<rparr>) =
     (0, s'\<lparr>st_urls_left := st_urls_left s' @ x, st_en_urls_left := st_en_urls_left s' @ y\<rparr>)"
proof (induction toks arbitrary: s)
  case Nil
  then show ?case by (auto simp: stop_def)
next
  case (Cons v toks)
  show ?case
  proof (cases rule: candidate_iteration_cases [where s = s and v = v and tf = tf])
    case no_url
    with Cons.prems show ?thesis by (simp add: candidate_loop_no_url)
  next
    case (empty_vocab u urls)
    with Cons.prems show ?thesis by (simp add: candidate_loop_empty_vocab)
  next
    case (empty_wordvec u urls)
    with Cons.prems show ?thesis by (simp add: candidate_loop_empty_wordvec)
  next
    case (ok u urls)
    let ?c = "candidate tf (of_nat (length (st_documents s))) (st_df s)"
    let ?s = "s\<lparr>st_en_urls_left := urls, st_n := st_n s + 1,
          st_pushed := st_pushed s @ [?c (v, u)]\<rparr>"
    let ?t = "s\<lparr>st_urls_left := st_urls_left s @ x, st_en_urls_left := st_en_urls_left s @ y\<rparr>"
    from Cons.prems have run: "candidate_loop tf W toks ?s = (0, s')"
      by (simp only: candidate_loop_ok [OF ok])
    have t: "st_en_urls_left ?t = u # (urls @ y)"
      using ok(1) by simp
    have okt: "candidate_ok tf (of_nat (length (st_documents ?t))) (st_df ?t) (v, u)"
      using ok(2) by simp
    have same: "?t\<lparr>st_en_urls_left := urls @ y, st_n := st_n ?t + 1,
          st_pushed := st_pushed ?t @ [candidate tf (of_nat (length (st_documents ?t))) (st_df ?t) (v, u)]\<rparr>
        = ?s\<lparr>st_urls_left := st_urls_left ?s @ x, st_en_urls_left := st_en_urls_left ?s @ y\<rparr>"
      by (cases s) simp
    have "candidate_loop tf W (v # toks) ?t =
        candidate_loop tf W toks
          (?s\<lparr>st_urls_left := st_urls_left ?s @ x, st_en_urls_left := st_en_urls_left ?s @ y\<rparr>)"
      unfolding candidate_loop_ok [OF t okt] same ..
    then show ?thesis
      using Cons.IH [OF run] by simp
  qed
qed

lemma raw_documents_surplus:
  "length tokens \<le> length urls \<Longrightarrow> raw_documents tokens (urls @ x) = raw_documents tokens urls"
  by (simp add: raw_documents_def zip_append2)

lemma reference_count_loaded:
  "length tokens \<le> length urls \<Longrightarrow> reference_count tokens urls = of_nat (length tokens)"
  by (simp add: reference_count_def length_raw_documents)

lemma references_loaded_surplus:
  "length tokens \<le> length urls \<Longrightarrow>
   references_loaded tf tokens (urls @ x) (en_urls @ y) =
     (references_loaded tf tokens urls en_urls)
       \<lparr>st_urls_left := st_urls_left (references_loaded tf tokens urls en_urls) @ x,
          st_en_urls_left := st_en_urls_left (references_loaded tf tokens urls en_urls) @ y\<rparr>"
  by (simp add: references_loaded_def reference_count_def reference_table_def raw_documents_surplus)

lemma main_good_prefix:
  assumes "length tokens \<le> length urls"
    and "list_all (candidate_ok tf (reference_count tokens urls) (reference_table tokens urls))
           (zip good en_urls)"
    and "length good \<le> length en_urls"
  shows "main tf tokens urls (good @ rest) en_urls =
     candidate_loop tf n_threads_main rest
       ((references_loaded tf tokens urls en_urls)
          \<lparr>st_en_urls_left := drop (length good) en_urls,
             st_n := of_nat (length good),
             st_pushed := map (candidate tf (reference_count tokens urls) (reference_table tokens urls))
                              (zip good en_urls)\<rparr>)"
proof -
  let ?s0 = "references_loaded tf tokens urls en_urls"
  have N: "of_nat (length (st_documents ?s0)) = reference_count tokens urls"
    and DF: "st_df ?s0 = reference_table tokens urls"
    and U: "st_en_urls_left ?s0 = en_urls"
    and n: "st_n ?s0 = 0" and p: "st_pushed ?s0 = []"
    by (simp_all add: references_loaded_def reference_count_def)
  have ok: "list_all (candidate_ok tf (of_nat (length (st_documents ?s0))) (st_df ?s0))
      (zip good (st_en_urls_left ?s0))"
    using assms(2) by (simp only: N DF U)
  have len: "length good \<le> length (st_en_urls_left ?s0)"
    using assms(3) by (simp only: U)
  show ?thesis
    unfolding main_loaded [OF assms(1)] candidate_loop_good [OF ok len]
    by (simp only: N DF U n p) simp
qed

lemma candidate_loop_cerr:
  "candidate_loop tf W toks s = (status, s') \<Longrightarrow>
   st_cerr s' = st_cerr s @ candidate_report status (st_n s')"
proof (induction toks arbitrary: s)
  case Nil
  then show ?case by (auto simp: stop_def candidate_report_def)
next
  case (Cons v toks)
  show ?case
  proof (cases rule: candidate_iteration_cases [where s = s and v = v and tf = tf])
    case no_url
    with Cons.prems show ?thesis
      by (auto simp: candidate_loop_no_url stop_def log_cerr_def candidate_report_def)
  next
    case (empty_vocab u urls)
    with Cons.prems show ?thesis
      by (auto simp: candidate_loop_empty_vocab stop_def log_cerr_def candidate_report_def)
  next
    case (empty_wordvec u urls)
    with Cons.prems show ?thesis
      by (auto simp: candidate_loop_empty_wordvec stop_def log_cerr_def candidate_report_def)
  next
    case (ok u urls)
    from Cons.prems have "candidate_loop tf W toks
       (s\<lparr>st_en_urls_left := urls, st_n := st_n s + 1,
          st_pushed := st_pushed s @ [candidate tf (of_nat (length (st_documents s))) (st_df s) (v, u)]\<rparr>)
       = (status, s')"
      by (simp only: candidate_loop_ok [OF ok])
    from Cons.IH [OF this] show ?thesis by simp
  qed
qed

lemma main_first_degenerate:
  assumes len: "length tokens \<le> length urls"
    and good: "list_all (candidate_ok tf (reference_count tokens urls) (reference_table tokens urls))
           (zip good en_urls)"
    and more: "length good < length en_urls"
    and bad: "\<not> candidate_ok tf (reference_count tokens urls) (reference_table tokens urls)
           (v, en_urls ! length good)"
  shows "main tf tokens urls (good @ v # rest) en_urls =
     (if v = [] then 4 else 5,
      stop n_threads_main
        (log_cerr ((if v = [] then EmptyVocab else EmptyWordVec) (of_nat (length good) + 1))
          ((references_loaded tf tokens urls en_urls)
             \<lparr>st_en_urls_left := drop (Suc (length good)) en_urls,
                st_n := of_nat (length good) + 1,
                st_pushed := map (candidate tf (reference_count tokens urls) (reference_table tokens urls))
                                 (zip good en_urls)\<rparr>)))"
proof -
  let ?N = "reference_count tokens urls" and ?DF = "reference_table tokens urls"
  let ?s = "(references_loaded tf tokens urls en_urls)
          \<lparr>st_en_urls_left := drop (length good) en_urls,
             st_n := of_nat (length good),
             st_pushed := map (candidate tf ?N ?DF) (zip good en_urls)\<rparr>"
  have le: "length good \<le> length en_urls" using more by simp
  have u: "st_en_urls_left ?s = en_urls ! length good # drop (Suc (length good)) en_urls"
    using more by (simp add: Cons_nth_drop_Suc)
  have N: "of_nat (length (st_documents ?s)) = ?N" and DF: "st_df ?s = ?DF"
    by (simp_all add: references_loaded_def reference_count_def)
  have start: "main tf tokens urls (good @ v # rest) en_urls
      = candidate_loop tf n_threads_main (v # rest) ?s"
    by (rule main_good_prefix [OF len good le])
  show ?thesis
  proof (cases "v = []")
    case True
    show ?thesis
      unfolding start using True candidate_loop_empty_vocab [OF u, of tf n_threads_main rest]
      by (simp add: references_loaded_def)
  next
    case False
    with bad have "wordvec (candidate tf (of_nat (length (st_documents ?s))) (st_df ?s)
        (v, en_urls ! length good)) = []"
      unfolding N DF by (simp add: candidate_ok_def)
    from candidate_loop_empty_wordvec [OF u False this, of n_threads_main rest]
    show ?thesis
      unfolding start using False by (simp add: references_loaded_def)
  qed
qed

text \<open>Unfolding a run of \<^verbatim>\<open>main\<close> on a concrete input.\<close>

lemmas run_main =
  main_def main_init_def log_cerr_def aggregate_pass_def transform_documents_def
  candidate_loop.simps stop_def transform_def example_tfidf_def Document_init_def Let_def
  n_threads_main_def aggregate_df_def df_add_document_def df_increment_def df_count_def

lemmas run_candidates =
  candidate_ok_def candidate_def raw_document_def raw_documents_def reference_table_def
  transform_def example_tfidf_def aggregate_df_def df_add_document_def df_increment_def
  df_count_def

subsection \<open>The table is built once, from the reference side\<close>

text \<open>The work items and the status of the streaming loop, from its input alone.\<close>

lemma candidate_loop_passed:
  "candidate_loop tf W toks s = (status, s') \<Longrightarrow>
   st_pushed s' = st_pushed s @
       map (candidate tf (of_nat (length (st_documents s))) (st_df s))
           (takeWhile (candidate_ok tf (of_nat (length (st_documents s))) (st_df s))
              (zip toks (st_en_urls_left s)))
       @ replicate W Document_init
   \<and> (status = 0) =
       (length (takeWhile (candidate_ok tf (of_nat (length (st_documents s))) (st_df s))
                  (zip toks (st_en_urls_left s))) = length toks)"
proof (induction toks arbitrary: s)
  case Nil
  then show ?case by (auto simp: stop_def)
next
  case (Cons v toks)
  show ?case
  proof (cases rule: candidate_iteration_cases [where s = s and v = v and tf = tf])
    case no_url
    with Cons.prems show ?thesis
      by (auto simp: candidate_loop_no_url stop_def log_cerr_def)
  next
    case (empty_vocab u urls)
    with Cons.prems show ?thesis
      by (auto simp: candidate_loop_empty_vocab stop_def log_cerr_def candidate_ok_def)
  next
    case (empty_wordvec u urls)
    with Cons.prems show ?thesis
      by (auto simp: candidate_loop_empty_wordvec stop_def log_cerr_def candidate_ok_def)
  next
    case (ok u urls)
    from Cons.prems have "candidate_loop tf W toks
       (s\<lparr>st_en_urls_left := urls, st_n := st_n s + 1,
          st_pushed := st_pushed s @ [candidate tf (of_nat (length (st_documents s))) (st_df s) (v, u)]\<rparr>)
       = (status, s')"
      by (simp only: candidate_loop_ok [OF ok])
    from Cons.IH [OF this] ok show ?thesis by simp
  qed
qed

lemma candidate_written_out:
  "candidate tf N DF = (\<lambda>(v, u). (tf \<lparr>url = u, vocab = v, wordvec = []\<rparr> N DF)\<lparr>vocab := []\<rparr>)"
  by (auto simp: candidate_def transform_def raw_document_def)

lemma candidate_ok_written_out:
  "candidate_ok tf N DF = (\<lambda>(v, u). v \<noteq> [] \<and> wordvec (tf \<lparr>url = u, vocab = v, wordvec = []\<rparr> N DF) \<noteq> [])"
  by (auto simp: candidate_ok_def candidate_def transform_def raw_document_def)

lemma raw_documents_written_out:
  "raw_documents tokens urls = map (\<lambda>(v, u). \<lparr>url = u, vocab = v, wordvec = []\<rparr>) (zip tokens urls)"
  by (auto simp: raw_documents_def raw_document_def)

text \<open>
  C7. Take a run that gets past the first loop, and let the table be the one aggregated
  from the reference documents as they were read. At the exit of \<^verbatim>\<open>main\<close> the table it
  holds is that one, whatever the candidate stream was; when the vocabs of the reference
  documents have distinct keys, its count for a term is the number of reference documents
  that hold the term, so no candidate has added to it. Every reference document has been
  transformed with that table and the number of reference documents. The candidates that
  pass, in the order of the stream and up to the first one that has no label, an empty
  vocab, or an empty weight vector under \<^verbatim>\<open>calculate_tfidf\<close> with that table and that
  number, are exactly the work items pushed, each as \<^verbatim>\<open>calculate_tfidf\<close> with that table
  and that number leaves it (with its vocab cleared), and the four terminators follow.
  The status is 0 exactly when every candidate of the stream has passed.
\<close>

theorem df_built_once:
  assumes "main tf tokens_in urls_in en_tokens_in en_urls_in = (status, s)"
    and "status \<noteq> 2"
  shows "(let refs = map (\<lambda>(v, u). \<lparr>url = u, vocab = v, wordvec = []\<rparr>) (zip tokens_in urls_in);
              N = of_nat (length tokens_in);
              DF = aggregate_df Map.empty refs;
              made = (\<lambda>(v, u). tf \<lparr>url = u, vocab = v, wordvec = []\<rparr> N DF);
              passed = takeWhile (\<lambda>(v, u). v \<noteq> [] \<and> wordvec (made (v, u)) \<noteq> [])
                         (zip en_tokens_in en_urls_in)
          in length refs = length tokens_in
           \<and> st_df s = DF
           \<and> (list_all vocab_wf refs \<and> length refs < 2 ^ 64 \<longrightarrow>
                (\<forall>t. map_option unat (st_df s t) =
                   (if containing t refs = [] then None else Some (length (containing t refs)))))
           \<and> st_documents s = map (\<lambda>d. (tf d N DF)\<lparr>vocab := []\<rparr>) refs
           \<and> st_pushed s = map (\<lambda>p. (made p)\<lparr>vocab := []\<rparr>) passed @ replicate 4 Document_init
           \<and> (status = 0) = (length passed = length en_tokens_in))"
proof -
  have len: "length tokens_in \<le> length urls_in"
  proof (rule ccontr)
    assume "\<not> ?thesis"
    then have "length urls_in < length tokens_in" by simp
    from main_unpaired [OF this] assms show False by simp
  qed
  let ?refs = "map (\<lambda>(v, u). \<lparr>url = u, vocab = v, wordvec = []\<rparr>) (zip tokens_in urls_in)"
  let ?N = "of_nat (length tokens_in) :: size_t"
  let ?DF = "aggregate_df Map.empty ?refs"
  let ?s0 = "references_loaded tf tokens_in urls_in en_urls_in"
  have run: "candidate_loop tf n_threads_main en_tokens_in ?s0 = (status, s)"
    using assms(1) by (simp add: main_loaded [OF len])
  have n: "length ?refs = length tokens_in" using len by simp
  have s0: "st_df ?s0 = ?DF" "of_nat (length (st_documents ?s0)) = ?N"
    "st_pushed ?s0 = []" "st_en_urls_left ?s0 = en_urls_in"
    "st_documents ?s0 = map (\<lambda>d. (tf d ?N ?DF)\<lparr>vocab := []\<rparr>) ?refs"
    using len
    by (simp_all add: references_loaded_def reference_table_def reference_count_def
        raw_documents_written_out transform_def)
  have df: "st_df s = ?DF" and docs: "st_documents s = st_documents ?s0"
    using candidate_loop_frame [OF run] s0(1) by simp_all
  have counts: "map_option unat (st_df s t) =
      (if containing t ?refs = [] then None else Some (length (containing t ?refs)))"
    if wf: "list_all vocab_wf ?refs" and small: "length ?refs < 2 ^ 64" for t
  proof -
    have wf': "\<forall>d \<in> set ?refs. vocab_wf d" using wf by (simp only: list_all_iff)
    have "length (containing t ?refs) < 2 ^ 64"
      using length_containing_le [of t ?refs] small by (rule le_less_trans)
    then have "unat (of_nat (length (containing t ?refs)) :: size_t) = length (containing t ?refs)"
      by (simp add: unat_of_nat)
    then show ?thesis
      unfolding df by (simp add: aggregate_df_apply [OF wf'] df_count_def)
  qed
  note passed = candidate_loop_passed [OF run, unfolded s0(2,3,4) s0(1),
      unfolded candidate_written_out candidate_ok_written_out]
  show ?thesis
    unfolding Let_def
    using n df counts docs s0(5) passed
    by (simp add: n_threads_main_def case_prod_beta)
qed

theorem df_built_once_witness:
  "fst (main weighting_tfidf [[(1, 1)], [(1, 3), (2, 1)]] [''a'', ''b'']
          [[(1, 2), (5, 1)], [(2, 3)]] [''c'', ''d'']) = 0
   \<and> st_pushed (snd (main weighting_tfidf [[(1, 1)], [(1, 3), (2, 1)]] [''a'', ''b'']
          [[(1, 2), (5, 1)], [(2, 3)]] [''c'', ''d''])) =
       [\<lparr>url = ''c'', vocab = [], wordvec = [\<lparr>hash = 1, tfidf = 2\<rparr>]\<rparr>,
        \<lparr>url = ''d'', vocab = [], wordvec = [\<lparr>hash = 2, tfidf = 6\<rparr>]\<rparr>]
       @ replicate 4 Document_init
   \<and> map_option unat (st_df (snd (main weighting_tfidf [[(1, 1)], [(1, 3), (2, 1)]] [''a'', ''b'']
          [[(1, 2), (5, 1)], [(2, 3)]] [''c'', ''d''])) 1) = Some 2
   \<and> st_df (snd (main weighting_tfidf [[(1, 1)], [(1, 3), (2, 1)]] [''a'', ''b'']
          [[(1, 2), (5, 1)], [(2, 3)]] [''c'', ''d''])) 5 = None"
proof -
  let ?m = "main weighting_tfidf [[(1, 1)], [(1, 3), (2, 1)]] [''a'', ''b'']
          [[(1, 2), (5, 1)], [(2, 3)]] [''c'', ''d'']"
  let ?refs = "[\<lparr>url = ''a'', vocab = [(1, 1)], wordvec = []\<rparr>,
                \<lparr>url = ''b'', vocab = [(1, 3), (2, 1)], wordvec = []\<rparr>]"
  have run: "?m = (fst ?m, snd ?m)" by simp
  have ok: "fst ?m \<noteq> 2"
    by (simp add: run_main weighting_tfidf_def)
  note inst = df_built_once [OF run ok, unfolded Let_def]
  have refs: "map (\<lambda>(v, u). \<lparr>url = u, vocab = v, wordvec = []\<rparr>)
      (zip [[(1, 1)], [(1, 3), (2, 1)]] [''a'', ''b'']) = ?refs"
    by simp
  have table: "aggregate_df Map.empty ?refs = [1 \<mapsto> 2, 2 \<mapsto> 1]"
    by (simp add: aggregate_df_def df_add_document_def df_increment_def)
  have wf: "list_all vocab_wf ?refs \<and> length ?refs < 2 ^ 64"
    by (simp add: vocab_wf_def)
  have pushed: "st_pushed (snd ?m) =
       [\<lparr>url = ''c'', vocab = [], wordvec = [\<lparr>hash = 1, tfidf = 2\<rparr>]\<rparr>,
        \<lparr>url = ''d'', vocab = [], wordvec = [\<lparr>hash = 2, tfidf = 6\<rparr>]\<rparr>]
       @ replicate 4 Document_init"
    and status: "fst ?m = 0"
    using inst unfolding refs table
    by (simp_all add: weighting_tfidf_def df_count_def)
  have "st_df (snd ?m) = [1 \<mapsto> 2, 2 \<mapsto> 1]"
    using inst unfolding refs table by simp
  then have none: "st_df (snd ?m) 5 = None" by simp
  have "containing 1 ?refs = ?refs"
    by (simp add: containing_def terms_of_def)
  moreover have "\<forall>t. map_option unat (st_df (snd ?m) t) =
      (if containing t ?refs = [] then None else Some (length (containing t ?refs)))"
    using inst wf unfolding refs by blast
  ultimately have "map_option unat (st_df (snd ?m) 1) = Some 2"
    by (simp del: map_option_eq_Some)
  with status pushed none show ?thesis by simp
qed

subsection \<open>Degenerate documents\<close>

text \<open>
  C8, as stated, at a reference document: the first reference document has an empty
  vocab and its transform an empty weight vector; the run goes through with status 0 and
  without an error line, and the document is in the corpus.
\<close>

theorem degenerate_reference_counterexample:
  "wordvec (transform example_tfidf 2 (reference_table [[], [(1, 1)]] [''a'', ''b''])
              (raw_document ([], ''a''))) = []
   \<and> fst (main example_tfidf [[], [(1, 1)]] [''a'', ''b''] [[(1, 2)]] [''c'']) = 0
   \<and> st_cerr (snd (main example_tfidf [[], [(1, 1)]] [''a'', ''b''] [[(1, 2)]] [''c'']))
       = [ReadDocuments 2, AggregatedDF, CalculatedTFIDF]
   \<and> map wordvec (st_documents (snd (main example_tfidf [[], [(1, 1)]] [''a'', ''b'']
                                        [[(1, 2)]] [''c''])))
       = [[], [\<lparr>hash = 1, tfidf = 1\<rparr>]]
   \<and> map url (st_pushed (snd (main example_tfidf [[], [(1, 1)]] [''a'', ''b''] [[(1, 2)]] [''c''])))
       = [''c'', [], [], [], []]"
  by (simp add: run_main run_candidates eval_nat_numeral)

text \<open>
  C8, amended to the candidate side. Let the reference side have a label for every
  document, and let a candidate whose transform yields an empty weight vector come after
  candidates that pass both guards, its own label being there. Then the run ends with status 5
  (status 4 when the candidate's vocab was empty already), the last line on \<^verbatim>\<open>cerr\<close>
  names the candidate by its position in the stream, counted from 1, the work items
  pushed are the candidates before it, all of them with a weight vector that is not empty,
  followed by the poison, and the consumers have been joined.
\<close>

theorem degenerate_candidate_fatal:
  assumes "length tokens_in \<le> length urls_in"
    and "length good < length en_urls_in"
    and "list_all (candidate_ok tf (of_nat (length tokens_in)) (reference_table tokens_in urls_in))
           (zip good en_urls_in)"
    and "wordvec (candidate tf (of_nat (length tokens_in)) (reference_table tokens_in urls_in)
           (v, en_urls_in ! length good)) = []"
    and "main tf tokens_in urls_in (good @ v # rest) en_urls_in = (status, s)"
  shows "status = (if v = [] then 4 else 5)
       \<and> st_cerr s = [ReadDocuments (of_nat (length tokens_in)), AggregatedDF, CalculatedTFIDF,
                       (if v = [] then EmptyVocab else EmptyWordVec) (of_nat (length good) + 1)]
       \<and> st_pushed s =
           map (candidate tf (of_nat (length tokens_in)) (reference_table tokens_in urls_in))
               (zip good en_urls_in)
           @ replicate n_threads_main Document_init
       \<and> list_all (\<lambda>d. wordvec d \<noteq> [])
           (map (candidate tf (of_nat (length tokens_in)) (reference_table tokens_in urls_in))
               (zip good en_urls_in))
       \<and> st_joined s"
proof -
  note N = reference_count_loaded [OF assms(1)]
  have bad: "\<not> candidate_ok tf (reference_count tokens_in urls_in) (reference_table tokens_in urls_in)
      (v, en_urls_in ! length good)"
    using assms(4) by (simp add: candidate_ok_def N)
  have work: "list_all (\<lambda>d. wordvec d \<noteq> [])
           (map (candidate tf (of_nat (length tokens_in)) (reference_table tokens_in urls_in))
               (zip good en_urls_in))"
    using assms(3) by (simp add: list_all_iff candidate_ok_def)
  from main_first_degenerate [OF assms(1) assms(3) [folded N] assms(2) bad, of rest] assms(5)
  have "status = (if v = [] then 4 else 5)"
    and "s = stop n_threads_main
        (log_cerr ((if v = [] then EmptyVocab else EmptyWordVec) (of_nat (length good) + 1))
          ((references_loaded tf tokens_in urls_in en_urls_in)
             \<lparr>st_en_urls_left := drop (Suc (length good)) en_urls_in,
                st_n := of_nat (length good) + 1,
                st_pushed := map (candidate tf (reference_count tokens_in urls_in)
                                    (reference_table tokens_in urls_in))
                                 (zip good en_urls_in)\<rparr>))"
    by simp_all
  then show ?thesis
    using work by (simp add: stop_def log_cerr_def references_loaded_def N)
qed

theorem degenerate_candidate_fatal_witness:
  "length [[(1, 1)] :: vocab_map] \<le> length [''a'']
   \<and> wordvec (candidate example_tfidf 1 (reference_table [[(1, 1)]] [''a'']) ([(9, 1)], ''d'')) = []
   \<and> fst (main example_tfidf [[(1, 1)]] [''a''] ([[(1, 2)]] @ [(9, 1)] # []) [''c'', ''d'']) = 5
   \<and> st_cerr (snd (main example_tfidf [[(1, 1)]] [''a''] ([[(1, 2)]] @ [(9, 1)] # []) [''c'', ''d'']))
       = [ReadDocuments 1, AggregatedDF, CalculatedTFIDF, EmptyWordVec 2]"
proof -
  let ?m = "main example_tfidf [[(1, 1)]] [''a''] ([[(1, 2)]] @ [(9, 1)] # []) [''c'', ''d'']"
  have len: "length [[(1, 1)] :: vocab_map] \<le> length [''a'']" by simp
  have more: "length [[(1, 2)] :: vocab_map] < length [''c'', ''d'']" by simp
  have run: "?m = (fst ?m, snd ?m)" by simp
  have ok: "list_all (candidate_ok example_tfidf (of_nat (length [[(1, 1)] :: vocab_map]))
              (reference_table [[(1, 1)]] [''a'']))
            (zip [[(1, 2)]] [''c'', ''d''])"
    by (simp add: run_candidates)
  have bad: "wordvec (candidate example_tfidf (of_nat (length [[(1, 1)] :: vocab_map]))
              (reference_table [[(1, 1)]] [''a''])
              ([(9, 1)], [''c'', ''d''] ! length [[(1, 2)] :: vocab_map])) = []"
    by (simp add: run_candidates)
  from degenerate_candidate_fatal [OF len more ok bad run]
  have "fst ?m = 5"
    and "st_cerr (snd ?m) = [ReadDocuments 1, AggregatedDF, CalculatedTFIDF, EmptyWordVec 2]"
    by simp_all
  with bad show ?thesis by simp
qed

text \<open>
  C9. When the reference side has a label for every document, every reference document
  is in the corpus after its transform, whatever its vocab and its weight vector are, and
  the lines on \<^verbatim>\<open>cerr\<close> are the three progress lines followed by at most one line of
  the streaming loop. The first candidate that has an empty vocab or an empty weight
  vector ends the run, with status 4 or 5.
\<close>

theorem empty_guard_only_for_candidates:
  assumes "length tokens_in \<le> length urls_in"
    and "main tf tokens_in urls_in en_tokens_in en_urls_in = (status, s)"
  shows "st_documents s =
           map (transform tf (of_nat (length tokens_in)) (reference_table tokens_in urls_in))
               (raw_documents tokens_in urls_in)
       \<and> length (st_documents s) = length tokens_in
       \<and> st_cerr s = [ReadDocuments (of_nat (length tokens_in)), AggregatedDF, CalculatedTFIDF]
                      @ candidate_report status (st_n s)
       \<and> (\<forall>good v rest.
             en_tokens_in = good @ v # rest \<and> length good < length en_urls_in
             \<and> list_all (candidate_ok tf (of_nat (length tokens_in)) (reference_table tokens_in urls_in))
                  (zip good en_urls_in)
             \<and> \<not> candidate_ok tf (of_nat (length tokens_in)) (reference_table tokens_in urls_in)
                  (v, en_urls_in ! length good)
             \<longrightarrow> status = (if v = [] then 4 else 5))"
proof -
  let ?s0 = "references_loaded tf tokens_in urls_in en_urls_in"
  note N = reference_count_loaded [OF assms(1)]
  have run: "candidate_loop tf n_threads_main en_tokens_in ?s0 = (status, s)"
    using assms(2) by (simp add: main_loaded [OF assms(1)])
  have docs: "st_documents s =
           map (transform tf (of_nat (length tokens_in)) (reference_table tokens_in urls_in))
               (raw_documents tokens_in urls_in)"
    using candidate_loop_frame [OF run] by (simp add: references_loaded_def N)
  then have count: "length (st_documents s) = length tokens_in"
    using assms(1) by (simp add: length_raw_documents)
  have cerr: "st_cerr s = [ReadDocuments (of_nat (length tokens_in)), AggregatedDF, CalculatedTFIDF]
                      @ candidate_report status (st_n s)"
    using candidate_loop_cerr [OF run] by (simp add: references_loaded_def N)
  have abort: "status = (if v = [] then 4 else 5)"
    if "en_tokens_in = good @ v # rest" "length good < length en_urls_in"
      "list_all (candidate_ok tf (of_nat (length tokens_in)) (reference_table tokens_in urls_in))
                  (zip good en_urls_in)"
      "\<not> candidate_ok tf (of_nat (length tokens_in)) (reference_table tokens_in urls_in)
                  (v, en_urls_in ! length good)"
    for good v rest
    using main_first_degenerate [OF assms(1) that(3) [folded N] that(2) that(4) [folded N], of rest]
      assms(2) that(1) by simp
  show ?thesis using docs count cerr abort by blast
qed

theorem empty_guard_only_for_candidates_witness:
  "length [[], [(1, 1)] :: vocab_map] \<le> length [''a'', ''b'']
   \<and> length (st_documents (snd (main example_tfidf [[], [(1, 1)]] [''a'', ''b'']
                                  [[(1, 2)], []] [''c'', ''d'']))) = 2
   \<and> fst (main example_tfidf [[], [(1, 1)]] [''a'', ''b''] [[(1, 2)], []] [''c'', ''d'']) = 4"
proof -
  let ?m = "main example_tfidf [[], [(1, 1)]] [''a'', ''b''] [[(1, 2)], []] [''c'', ''d'']"
  have len: "length [[], [(1, 1)] :: vocab_map] \<le> length [''a'', ''b'']" by simp
  have run: "?m = (fst ?m, snd ?m)" by simp
  have ok: "list_all (candidate_ok example_tfidf (of_nat (length [[], [(1, 1)] :: vocab_map]))
              (reference_table [[], [(1, 1)]] [''a'', ''b'']))
            (zip [[(1, 2)]] [''c'', ''d''])"
    by (simp add: run_candidates)
  have bad: "\<not> candidate_ok example_tfidf (of_nat (length [[], [(1, 1)] :: vocab_map]))
              (reference_table [[], [(1, 1)]] [''a'', ''b''])
              ([], [''c'', ''d''] ! length [[(1, 2)] :: vocab_map])"
    by (simp add: candidate_ok_def)
  from empty_guard_only_for_candidates [OF len run]
  have docs: "length (st_documents (snd ?m)) = length [[], [(1, 1)] :: vocab_map]"
    and abort: "\<And>good v rest.
             [[(1, 2)], []] = good @ v # rest \<and> length good < length [''c'', ''d'']
             \<and> list_all (candidate_ok example_tfidf (of_nat (length [[], [(1, 1)] :: vocab_map]))
                    (reference_table [[], [(1, 1)]] [''a'', ''b'']))
                  (zip good [''c'', ''d''])
             \<and> \<not> candidate_ok example_tfidf (of_nat (length [[], [(1, 1)] :: vocab_map]))
                    (reference_table [[], [(1, 1)]] [''a'', ''b''])
                  (v, [''c'', ''d''] ! length good)
             \<Longrightarrow> fst ?m = (if v = [] then 4 else 5)"
    by blast+
  from abort [of "[[(1, 2)]]" "[]" "[]"] ok bad have "fst ?m = 4" by simp
  with docs show ?thesis by simp
qed

subsection \<open>Labels and documents out of step\<close>

text \<open>
  C10. Status 2 is returned exactly when the reference labels run out before the reference
  documents, and status 3 only when the candidate labels run out before the candidate
  documents. A run in which the reads of the candidate documents come to the end of
  their stream (and so did the reads of the reference documents) ends with status 0 and
  with the three progress lines alone on \<^verbatim>\<open>cerr\<close>; any labels appended to either label
  stream stay unread and change nothing else.
\<close>

theorem label_mismatch_detection:
  assumes "main tf tokens_in urls_in en_tokens_in en_urls_in = (status, s)"
  shows "(status = 2) = (length urls_in < length tokens_in)
       \<and> (status = 3 \<longrightarrow> length en_urls_in < length en_tokens_in)
       \<and> (st_en_tokens_end s \<longrightarrow>
            status = 0 \<and> st_tokens_end s
            \<and> st_cerr s = [ReadDocuments (of_nat (length tokens_in)), AggregatedDF, CalculatedTFIDF]
            \<and> main tf tokens_in (urls_in @ x) en_tokens_in (en_urls_in @ y) =
                (0, s\<lparr>st_urls_left := st_urls_left s @ x,
                      st_en_urls_left := st_en_urls_left s @ y\<rparr>))"
proof (cases "length urls_in < length tokens_in")
  case True
  with assms show ?thesis
    by (auto simp: main_unpaired main_init_def)
next
  case False
  then have len: "length tokens_in \<le> length urls_in" by simp
  let ?s0 = "references_loaded tf tokens_in urls_in en_urls_in"
  have run: "candidate_loop tf n_threads_main en_tokens_in ?s0 = (status, s)"
    using assms by (simp add: main_loaded [OF len])
  note out = candidate_loop_outcome [OF run]
  note frame = candidate_loop_frame [OF run]
  have s0: "\<not> st_en_tokens_end ?s0" "st_tokens_end ?s0" "st_en_urls_left ?s0 = en_urls_in"
    "st_cerr ?s0 = [ReadDocuments (of_nat (length tokens_in)), AggregatedDF, CalculatedTFIDF]"
    by (simp_all add: references_loaded_def reference_count_loaded [OF len])
  have not2: "status \<noteq> 2" using out by auto
  have three: "status = 3 \<longrightarrow> length en_urls_in < length en_tokens_in"
    using out s0 by simp
  have ended: "status = 0 \<and> st_tokens_end s
      \<and> st_cerr s = [ReadDocuments (of_nat (length tokens_in)), AggregatedDF, CalculatedTFIDF]
      \<and> main tf tokens_in (urls_in @ x) en_tokens_in (en_urls_in @ y) =
           (0, s\<lparr>st_urls_left := st_urls_left s @ x, st_en_urls_left := st_en_urls_left s @ y\<rparr>)"
    if e: "st_en_tokens_end s"
  proof -
    have z: "status = 0" using out s0(1) e by auto
    have len': "length tokens_in \<le> length (urls_in @ x)" using len by simp
    have "main tf tokens_in (urls_in @ x) en_tokens_in (en_urls_in @ y) =
        candidate_loop tf n_threads_main en_tokens_in
          (?s0\<lparr>st_urls_left := st_urls_left ?s0 @ x, st_en_urls_left := st_en_urls_left ?s0 @ y\<rparr>)"
      by (simp only: main_loaded [OF len'] references_loaded_surplus [OF len])
    also have "\<dots> = (0, s\<lparr>st_urls_left := st_urls_left s @ x, st_en_urls_left := st_en_urls_left s @ y\<rparr>)"
      using run z by (intro candidate_loop_surplus) simp
    finally show ?thesis using z out frame s0 by simp
  qed
  show ?thesis using not2 False three ended by blast
qed

theorem label_mismatch_detection_witness:
  "fst (main example_tfidf [[(1, 1)]] [''a'', ''a2''] [[(1, 2)]] [''b'', ''b2'']) = 0
   \<and> st_en_tokens_end (snd (main example_tfidf [[(1, 1)]] [''a'', ''a2''] [[(1, 2)]] [''b'', ''b2'']))
   \<and> st_en_urls_left (snd (main example_tfidf [[(1, 1)]] [''a'', ''a2''] [[(1, 2)]] [''b'', ''b2''])) = [''b2'']
   \<and> fst (main example_tfidf [[(1, 1)]] ([''a'', ''a2''] @ [''a3'']) [[(1, 2)]] ([''b'', ''b2''] @ [''b3''])) = 0"
proof -
  let ?m = "main example_tfidf [[(1, 1)]] [''a'', ''a2''] [[(1, 2)]] [''b'', ''b2'']"
  have run: "?m = (fst ?m, snd ?m)" by simp
  have e: "st_en_tokens_end (snd ?m)" and l: "st_en_urls_left (snd ?m) = [''b2'']"
    by (simp_all add: run_main)
  from label_mismatch_detection [OF run, of "[''a3'']" "[''b3'']"] e
  have "fst ?m = 0 \<and> fst (main example_tfidf [[(1, 1)]] ([''a'', ''a2''] @ [''a3'']) [[(1, 2)]]
      ([''b'', ''b2''] @ [''b3''])) = 0"
    by simp
  with e l show ?thesis by simp
qed

section \<open>Properties of the worker pool\<close>

subsection \<open>The invariant\<close>


lemma sum_update:
  "i < length ws \<Longrightarrow>
   sum_list (map f (ws[i := w])) + f (ws ! i) = sum_list (map f ws) + (f w :: nat)"
proof (induction ws arbitrary: i)
  case Nil
  then show ?case by simp
next
  case (Cons a ws)
  then show ?case by (cases i) auto
qed

lemma is_poison_init [simp]: "is_poison Document_init"
  by (simp add: is_poison_def Document_init_def)

text \<open>The steps of the threads, case by case.\<close>

lemma orchestrator_step_cases:
  assumes "orchestrator_step s = Some s'"
  obtains (push) item rest q where "p_todo s = item # rest" "push item (p_queue s) = Some q"
      "s' = s\<lparr>p_queue := q, p_todo := rest\<rparr>"
  | (join) "p_todo s = []" "p_joined s < length (p_workers s)" "p_workers s ! p_joined s = Exited"
      "s' = s\<lparr>p_joined := p_joined s + 1\<rparr>"
  using assms unfolding orchestrator_step_def
  by (auto split: list.splits option.splits if_splits)

lemma consumer_step_cases:
  assumes "consumer_step threshold documents i s = Some s'"
  obtains (pop_work) buffer q where "i < length (p_workers s)" "p_workers s ! i = Popping"
      "pop (p_queue s) = Some (buffer, q)" "\<not> is_poison buffer"
      "s' = s\<lparr>p_queue := q, p_popped := (p_popped s)[i := p_popped s ! i @ [buffer]],
               p_workers := (p_workers s)[i := Scoring buffer documents]\<rparr>"
  | (pop_poison) buffer q where "i < length (p_workers s)" "p_workers s ! i = Popping"
      "pop (p_queue s) = Some (buffer, q)" "is_poison buffer"
      "s' = s\<lparr>p_queue := q, p_popped := (p_popped s)[i := p_popped s ! i @ [buffer]],
               p_workers := (p_workers s)[i := Exited]\<rparr>"
  | (score) buffer document rest where "i < length (p_workers s)"
      "p_workers s ! i = Scoring buffer (document # rest)"
      "s' = s\<lparr>p_hits := score_document threshold buffer (p_hits s) document,
               p_workers := (p_workers s)[i := Scoring buffer rest]\<rparr>"
  | (again) buffer where "i < length (p_workers s)" "p_workers s ! i = Scoring buffer []"
      "s' = s\<lparr>p_workers := (p_workers s)[i := Popping]\<rparr>"
proof -
  from assms have i: "i < length (p_workers s)"
    by (auto simp: consumer_step_def split: if_splits)
  show ?thesis
  proof (cases "p_workers s ! i")
    case Popping
    with assms i obtain buffer q where p: "pop (p_queue s) = Some (buffer, q)"
      and s': "s' = s\<lparr>p_queue := q, p_popped := (p_popped s)[i := p_popped s ! i @ [buffer]],
               p_workers := (p_workers s)[i := if wordvec buffer = [] then Exited
                                                else Scoring buffer documents]\<rparr>"
      by (auto simp: consumer_step_def split: option.splits)
    show ?thesis
    proof (cases "is_poison buffer")
      case True
      with s' show ?thesis using pop_poison [OF i Popping p] by (simp add: is_poison_def)
    next
      case False
      with s' show ?thesis using pop_work [OF i Popping p] by (simp add: is_poison_def)
    qed
  next
    case (Scoring buffer rest)
    show ?thesis
    proof (cases rest)
      case Nil
      with Scoring assms i show ?thesis using again [of buffer]
        by (auto simp: consumer_step_def)
    next
      case (Cons document rest')
      with Scoring assms i show ?thesis using score [of buffer document rest']
        by (auto simp: consumer_step_def)
    qed
  next
    case Exited
    with assms i show ?thesis by (simp add: consumer_step_def)
  qed
qed



lemma live_workers_frame [simp]:
  "live_workers (s\<lparr>p_queue := q\<rparr>) = live_workers s"
  "live_workers (s\<lparr>p_todo := t\<rparr>) = live_workers s"
  "live_workers (s\<lparr>p_joined := j\<rparr>) = live_workers s"
  "live_workers (s\<lparr>p_popped := p\<rparr>) = live_workers s"
  "live_workers (s\<lparr>p_hits := h\<rparr>) = live_workers s"
  by (simp_all add: live_workers_def)











subsection \<open>Every execution is finite and ends with the pool shut down\<close>


lemma pool_steps_frame [simp]:
  "pool_steps documents (s\<lparr>p_hits := h\<rparr>) = pool_steps documents s"
  "pool_steps documents (s\<lparr>p_popped := p\<rparr>) = pool_steps documents s"
  by (simp_all add: pool_steps_def)



















subsection \<open>A consumer and its candidate\<close>

lemma run_schedule_append:
  "run_schedule threshold documents (xs @ ys) s =
     (case run_schedule threshold documents xs s of
        None \<Rightarrow> None
      | Some s' \<Rightarrow> run_schedule threshold documents ys s')"
  by (induction xs arbitrary: s) (simp_all split: option.splits)

lemma consumer_scores:
  "i < length (p_workers s) \<Longrightarrow> p_workers s ! i = Scoring buffer rest \<Longrightarrow>
   run_schedule threshold documents (replicate (length rest) (Consumer i)) s =
     Some (s\<lparr>p_hits := foldl (score_document threshold buffer) (p_hits s) rest,
             p_workers := (p_workers s)[i := Scoring buffer []]\<rparr>)"
proof (induction rest arbitrary: s)
  case Nil
  have "s\<lparr>p_hits := p_hits s, p_workers := (p_workers s)[i := Scoring buffer []]\<rparr> = s"
    using Nil by (simp add: list_update_same_conv)
  then show ?case by simp
next
  case (Cons document rest)
  let ?s = "s\<lparr>p_hits := score_document threshold buffer (p_hits s) document,
              p_workers := (p_workers s)[i := Scoring buffer rest]\<rparr>"
  have step: "consumer_step threshold documents i s = Some ?s"
    using Cons.prems by (simp add: consumer_step_def)
  have i: "i < length (p_workers ?s)" and at: "p_workers ?s ! i = Scoring buffer rest"
    using Cons.prems by simp_all
  show ?case
    using Cons.IH [OF i at] step by simp
qed

text \<open>
  C6. Let a consumer be at \<^verbatim>\<open>queue.pop()\<close> and let the oldest item of the buffer be a
  candidate with a weight vector that is not empty. The consumer's next steps are the pop,
  one scoring step for every reference document, in the order of the corpus, and the step
  back to \<^verbatim>\<open>queue.pop()\<close>; after them the candidate is in the consumer's log, the hit
  counter has gone through the scoring loop, and nothing else has changed. The loop adds
  to the counter (on \<^verbatim>\<open>size_t\<close>) the number of reference documents whose score against
  the candidate is at least the threshold: 1 for each of them, nothing for the others.
\<close>

theorem worker_scores_candidate:
  assumes "i < length (p_workers s)" and "p_workers s ! i = Popping"
    and "pop (p_queue s) = Some (buffer, q)" and "wordvec buffer \<noteq> []"
  shows "run_schedule threshold documents (replicate (length documents + 2) (Consumer i)) s =
           Some (s\<lparr>p_queue := q,
                   p_popped := (p_popped s)[i := p_popped s ! i @ [buffer]],
                   p_hits := score_candidate threshold documents buffer (p_hits s)\<rparr>)
       \<and> score_candidate threshold documents buffer (p_hits s) =
           p_hits s + of_nat (length (hit_documents threshold documents buffer))"
proof -
  let ?s1 = "s\<lparr>p_queue := q, p_popped := (p_popped s)[i := p_popped s ! i @ [buffer]],
               p_workers := (p_workers s)[i := Scoring buffer documents]\<rparr>"
  let ?s2 = "?s1\<lparr>p_hits := foldl (score_document threshold buffer) (p_hits ?s1) documents,
             p_workers := (p_workers ?s1)[i := Scoring buffer []]\<rparr>"
  have pop: "consumer_step threshold documents i s = Some ?s1"
    using assms by (simp add: consumer_step_def)
  have i1: "i < length (p_workers ?s1)" and at1: "p_workers ?s1 ! i = Scoring buffer documents"
    using assms(1) by simp_all
  have scores: "run_schedule threshold documents (replicate (length documents) (Consumer i)) ?s1 = Some ?s2"
    by (rule consumer_scores [OF i1 at1])
  have again: "consumer_step threshold documents i ?s2 =
      Some (s\<lparr>p_queue := q, p_popped := (p_popped s)[i := p_popped s ! i @ [buffer]],
              p_hits := score_candidate threshold documents buffer (p_hits s)\<rparr>)"
    using assms(1,2) by (simp add: consumer_step_def score_candidate_def list_update_same_conv)
  have sched: "replicate (length documents + 2) (Consumer i) =
      Consumer i # replicate (length documents) (Consumer i) @ [Consumer i]"
    by (simp add: replicate_append_same)
  have "run_schedule threshold documents (replicate (length documents + 2) (Consumer i)) s =
      run_schedule threshold documents (replicate (length documents) (Consumer i) @ [Consumer i]) ?s1"
    unfolding sched by (simp only: run_schedule.simps thread_step.simps pop option.case)
  also have "\<dots> = run_schedule threshold documents [Consumer i] ?s2"
    by (simp only: run_schedule_append scores option.case)
  also have "\<dots> = Some (s\<lparr>p_queue := q,
                   p_popped := (p_popped s)[i := p_popped s ! i @ [buffer]],
                   p_hits := score_candidate threshold documents buffer (p_hits s)\<rparr>)"
    by (simp only: run_schedule.simps thread_step.simps again option.case)
  finally have "run_schedule threshold documents (replicate (length documents + 2) (Consumer i)) s =
           Some (s\<lparr>p_queue := q,
                   p_popped := (p_popped s)[i := p_popped s ! i @ [buffer]],
                   p_hits := score_candidate threshold documents buffer (p_hits s)\<rparr>)" .
  then show ?thesis
    by (simp add: score_candidate_def hit_documents_def score_fold)
qed

theorem worker_scores_candidate_witness:
  "pop \<lparr>q_size = 16, q_buffer = [\<lparr>url = ''b'', vocab = [], wordvec =
          [\<lparr>hash = 2, tfidf = 0.4\<rparr>, \<lparr>hash = 3, tfidf = 0.1\<rparr>, \<lparr>hash = 5, tfidf = 0.3\<rparr>]\<rparr>]\<rparr>
     = Some (\<lparr>url = ''b'', vocab = [], wordvec =
          [\<lparr>hash = 2, tfidf = 0.4\<rparr>, \<lparr>hash = 3, tfidf = 0.1\<rparr>, \<lparr>hash = 5, tfidf = 0.3\<rparr>]\<rparr>,
        \<lparr>q_size = 16, q_buffer = []\<rparr>)
   \<and> score_candidate 0.29
       [\<lparr>url = ''a'', vocab = [], wordvec =
          [\<lparr>hash = 1, tfidf = 0.5\<rparr>, \<lparr>hash = 3, tfidf = 0.2\<rparr>, \<lparr>hash = 5, tfidf = 0.9\<rparr>]\<rparr>,
        \<lparr>url = ''z'', vocab = [], wordvec = [\<lparr>hash = 4, tfidf = 1\<rparr>]\<rparr>]
       \<lparr>url = ''b'', vocab = [], wordvec =
          [\<lparr>hash = 2, tfidf = 0.4\<rparr>, \<lparr>hash = 3, tfidf = 0.1\<rparr>, \<lparr>hash = 5, tfidf = 0.3\<rparr>]\<rparr>
       0 = 1"
proof -
  let ?a = "\<lparr>url = ''a'', vocab = [], wordvec =
          [\<lparr>hash = 1, tfidf = 0.5\<rparr>, \<lparr>hash = 3, tfidf = 0.2\<rparr>, \<lparr>hash = 5, tfidf = 0.9\<rparr>]\<rparr>"
  let ?z = "\<lparr>url = ''z'', vocab = [], wordvec = [\<lparr>hash = 4, tfidf = 1\<rparr>]\<rparr>"
  let ?b = "\<lparr>url = ''b'', vocab = [], wordvec =
          [\<lparr>hash = 2, tfidf = 0.4\<rparr>, \<lparr>hash = 3, tfidf = 0.1\<rparr>, \<lparr>hash = 5, tfidf = 0.3\<rparr>]\<rparr>"
  let ?q = "\<lparr>q_size = 16, q_buffer = [?b]\<rparr>"
  let ?s = "\<lparr>p_queue = ?q, p_todo = [], p_joined = 0, p_workers = [Popping],
            p_popped = [[]], p_hits = 0\<rparr>"
  have i: "0 < length (p_workers ?s)" and at: "p_workers ?s ! 0 = Popping" by simp_all
  have p: "pop (p_queue ?s) = Some (?b, \<lparr>q_size = 16, q_buffer = []\<rparr>)"
    by (simp add: pop_def)
  have w: "wordvec ?b \<noteq> []" by simp
  have hits: "length (hit_documents 0.29 [?a, ?z] ?b) = 1"
    by (simp add: hit_documents_def calculate_alignment_def)
  from worker_scores_candidate [OF i at p w, of "0.29" "[?a, ?z]"]
  have "score_candidate 0.29 [?a, ?z] ?b (p_hits ?s) = p_hits ?s + of_nat (length (hit_documents 0.29 [?a, ?z] ?b))"
    by blast
  then have "score_candidate 0.29 [?a, ?z] ?b 0 = 1"
    unfolding hits by simp
  with p show ?thesis by simp
qed

subsection \<open>The hit counter over a whole execution\<close>

text \<open>
  The steps of the other threads that fall between the steps of a consumer do not change
  the count: in every execution the hit counter and the hits still owed add up to the
  same number, so when the pool is shut down the counter is the number of pairs of a
  reference document and a pushed candidate that score at least the threshold.
\<close>

lemma owed_worker_update:
  assumes "i < length (p_workers s)"
  shows "owed threshold documents (s\<lparr>p_workers := (p_workers s)[i := w]\<rparr>)
           + worker_owed threshold (p_workers s ! i)
       = owed threshold documents s + worker_owed threshold w"
  using sum_update [OF assms, of "worker_owed threshold" w] by (simp add: owed_def)

lemma thread_step_hits:
  assumes "thread_step threshold documents t s = Some s'"
  shows "p_hits s' + of_nat (owed threshold documents s')
       = p_hits s + of_nat (owed threshold documents s)"
proof (cases t)
  case Orchestrator
  with assms have "orchestrator_step s = Some s'" by simp
  then show ?thesis
  proof (cases rule: orchestrator_step_cases)
    case (push item rest q)
    then show ?thesis using push_buffer [OF push(2)] by (simp add: owed_def)
  next
    case join
    then show ?thesis by (simp add: owed_def)
  qed
next
  case (Consumer i)
  with assms have "consumer_step threshold documents i s = Some s'" by simp
  then show ?thesis
  proof (cases rule: consumer_step_cases)
    case (pop_work buffer q)
    let ?s = "s\<lparr>p_queue := q, p_popped := (p_popped s)[i := p_popped s ! i @ [buffer]]\<rparr>"
    have a: "owed threshold documents ?s + length (hit_documents threshold documents buffer)
        = owed threshold documents s"
      using pop_buffer [OF pop_work(3)] pop_work(4) by (simp add: owed_def item_hits_def)
    have b: "owed threshold documents (?s\<lparr>p_workers := (p_workers ?s)[i := Scoring buffer documents]\<rparr>)
        + worker_owed threshold (p_workers ?s ! i)
        = owed threshold documents ?s + worker_owed threshold (Scoring buffer documents)"
      by (rule owed_worker_update) (use pop_work(1) in simp)
    have "owed threshold documents s' = owed threshold documents s"
      using a b pop_work(2,5) by simp
    moreover have "p_hits s' = p_hits s" using pop_work(5) by simp
    ultimately show ?thesis by simp
  next
    case (pop_poison buffer q)
    let ?s = "s\<lparr>p_queue := q, p_popped := (p_popped s)[i := p_popped s ! i @ [buffer]]\<rparr>"
    have a: "owed threshold documents ?s = owed threshold documents s"
      using pop_buffer [OF pop_poison(3)] pop_poison(4) by (simp add: owed_def item_hits_def)
    have b: "owed threshold documents (?s\<lparr>p_workers := (p_workers ?s)[i := Exited]\<rparr>)
        + worker_owed threshold (p_workers ?s ! i)
        = owed threshold documents ?s + worker_owed threshold Exited"
      by (rule owed_worker_update) (use pop_poison(1) in simp)
    have "owed threshold documents s' = owed threshold documents s"
      using a b pop_poison(2,5) by simp
    moreover have "p_hits s' = p_hits s" using pop_poison(5) by simp
    ultimately show ?thesis by simp
  next
    case (score buffer document rest)
    let ?s = "s\<lparr>p_workers := (p_workers s)[i := Scoring buffer rest]\<rparr>"
    have o: "owed threshold documents s' = owed threshold documents ?s"
      using score(3) by (simp add: owed_def)
    from owed_worker_update [OF score(1), of threshold documents "Scoring buffer rest"] score(2)
    have "owed threshold documents ?s
          + (if calculate_alignment document buffer \<ge> threshold then 1 else 0)
        = owed threshold documents s"
      by (simp add: hit_documents_def split: if_splits)
    then have "owed threshold documents s = owed threshold documents s'
          + (if calculate_alignment document buffer \<ge> threshold then 1 else 0)"
      using o by simp
    moreover have "p_hits s' = p_hits s
        + (if calculate_alignment document buffer \<ge> threshold then 1 else 0)"
      using score(3) by (simp add: score_document_def)
    ultimately show ?thesis by simp
  next
    case (again buffer)
    from owed_worker_update [OF again(1), of threshold documents Popping] again(2,3)
    show ?thesis by (simp add: hit_documents_def)
  qed
qed

lemma run_schedule_hits:
  "run_schedule threshold documents schedule s = Some s' \<Longrightarrow>
   p_hits s' + of_nat (owed threshold documents s')
     = p_hits s + of_nat (owed threshold documents s)"
proof (induction schedule arbitrary: s)
  case Nil
  then show ?case by simp
next
  case (Cons t schedule)
  from Cons.prems obtain s1 where s1: "thread_step threshold documents t s = Some s1"
    and run: "run_schedule threshold documents schedule s1 = Some s'"
    by (auto split: option.splits)
  show ?case
    using Cons.IH [OF run] thread_step_hits [OF s1] by simp
qed

lemma owed_done: "pool_done s \<Longrightarrow> owed threshold documents s = 0"
proof -
  assume d: "pool_done s"
  then have "\<forall>w \<in> set (p_workers s). worker_owed threshold w = 0"
    by (auto simp: pool_done_def list_all_iff)
  then have "sum_list (map (worker_owed threshold) (p_workers s)) = 0"
    by simp
  with d show ?thesis by (simp add: owed_def pool_done_def)
qed

lemma owed_init:
  "owed threshold documents (pool_init capacity W pushes) =
     sum_list (map (item_hits threshold documents) pushes)"
  by (simp add: owed_def pool_init_def blocking_queue_def sum_list_replicate)

lemma pool_counts_all_hits:
  assumes "run_schedule threshold documents schedule (pool_init capacity W pushes) = Some s"
    and "pool_done s"
  shows "p_hits s = of_nat (sum_list (map (item_hits threshold documents) pushes))"
proof -
  have "p_hits s + of_nat (owed threshold documents s) =
      p_hits (pool_init capacity W pushes) + of_nat (owed threshold documents (pool_init capacity W pushes))"
    by (rule run_schedule_hits [OF assms(1)])
  moreover have "p_hits (pool_init capacity W pushes) = 0"
    by (simp add: pool_init_def)
  ultimately show ?thesis
    by (simp add: owed_done [OF assms(2)] owed_init)
qed

end
